theory Spec2Isabelle
  imports Main "HOL-Library.Word"
begin

unbundle bit_operations_syntax

section \<open>Physical memory and the environment of pt.c\<close>

text \<open>
  \<^verbatim>\<open>pt.c\<close> works on \<^verbatim>\<open>uint64_t\<close> values throughout: page numbers, page-table
  entries and the addresses behind \<^verbatim>\<open>uint64_t*\<close> pointers. Physical memory is
  byte addressed: a function from the 64-bit physical address to the byte stored there.
  An entry is the eight bytes from its address on, least significant byte first. Nothing
  in \<^verbatim>\<open>pt.c\<close> checks that the pointer it takes out of an entry is a multiple of
  eight, so an access may straddle two entries, and the model lets it. The state also
  holds the cursor of the frame allocator.
\<close>

type_synonym u64 = "64 word"

type_synonym u8 = "8 word"

record state =
  mem :: "u64 \<Rightarrow> u8"
  nalloc :: u64

definition EXTRACT_9BITS :: u64 where
  "EXTRACT_9BITS = 0x1ff"

text \<open>
  Modelled from the spec: \<^verbatim>\<open>phys_to_virt\<close> is declared in \<^verbatim>\<open>os.h\<close>, which is not
  part of the sources. The spec calls it \<^verbatim>\<open>resolve\<close>: it turns a physical address into
  a directly dereferenceable view of that page, bijective and stable. Memory is indexed
  by physical address here, so the view of an address is the address itself.
\<close>

definition phys_to_virt :: "u64 \<Rightarrow> u64" where
  "phys_to_virt pa = pa"

text \<open>
  Modelled from the spec: \<^verbatim>\<open>alloc_page_frame\<close> is declared in \<^verbatim>\<open>os.h\<close>. The spec
  says that it never fails and returns the number of a fresh, zero-initialised frame. The
  model hands out frame numbers in increasing order from the cursor \<open>nalloc\<close>; that the
  frames not yet handed out are zero-filled and unused is a condition on the state
  (\<open>fresh_frames\<close> below), not something the allocator establishes.
\<close>

definition alloc_page_frame :: "state \<Rightarrow> u64 \<times> state" where
  "alloc_page_frame s = (nalloc s, s\<lparr>nalloc := nalloc s + 1\<rparr>)"

text \<open>
  \<^verbatim>\<open>p[i]\<close> as an rvalue and \<^verbatim>\<open>p[i] = v\<close>, for \<^verbatim>\<open>uint64_t *p\<close>: the eight
  bytes at \<open>p + 8 * i\<close>, in little-endian order. Addresses wrap around at \<open>2 ^ 64\<close>.
  The byte order is a choice of the model; it can be observed only through an access
  that is not at a multiple of eight.
\<close>

definition load :: "u64 \<Rightarrow> u64 \<Rightarrow> state \<Rightarrow> u64" where
  "load p i s =
     (let a = p + 8 * i
      in ucast (mem s a) OR push_bit 8 (ucast (mem s (a + 1))) OR
         push_bit 16 (ucast (mem s (a + 2))) OR push_bit 24 (ucast (mem s (a + 3))) OR
         push_bit 32 (ucast (mem s (a + 4))) OR push_bit 40 (ucast (mem s (a + 5))) OR
         push_bit 48 (ucast (mem s (a + 6))) OR push_bit 56 (ucast (mem s (a + 7))))"

definition store :: "u64 \<Rightarrow> u64 \<Rightarrow> u64 \<Rightarrow> state \<Rightarrow> state" where
  "store p i v s =
     (let a = p + 8 * i
      in s\<lparr>mem := (mem s)
           (a := ucast v, a + 1 := ucast (drop_bit 8 v), a + 2 := ucast (drop_bit 16 v),
            a + 3 := ucast (drop_bit 24 v), a + 4 := ucast (drop_bit 32 v),
            a + 5 := ucast (drop_bit 40 v), a + 6 := ucast (drop_bit 48 v),
            a + 7 := ucast (drop_bit 56 v))\<rparr>)"

section \<open>The three operations of pt.c\<close>

text \<open>
  Each \<^verbatim>\<open>for (i = 1; i < 5; i++)\<close> loop is a recursive function on the loop
  variables \<open>i\<close>, \<open>curr_pt\<close> and \<open>pte\<close>; it returns their values when the loop is
  left. The counter \<open>i\<close> stays between 1 and 5, so it is a \<open>nat\<close> and
  \<open>36 - i * 9\<close> never goes below zero inside the loop.
\<close>

function destroy_loop :: "u64 \<Rightarrow> nat \<Rightarrow> u64 \<Rightarrow> u64 \<Rightarrow> state \<Rightarrow> nat \<times> u64 \<times> u64" where
  "destroy_loop vpn i curr_pt pte s =
     (if i < 5 then
        (if load curr_pt pte s mod 2 = 0 then (i, curr_pt, pte)
         else destroy_loop vpn (i + 1) (phys_to_virt (load curr_pt pte s - 1))
                (drop_bit (36 - i * 9) vpn AND EXTRACT_9BITS) s)
      else (i, curr_pt, pte))"
  by pat_completeness auto
termination
  by (relation "measure (\<lambda>(vpn, i, curr_pt, pte, s). 5 - i)") auto

definition destroy_virtual_memory_mapping :: "u64 \<Rightarrow> u64 \<Rightarrow> state \<Rightarrow> state" where
  "destroy_virtual_memory_mapping root_pt vpn s =
     (case destroy_loop vpn 1 root_pt (drop_bit 36 vpn AND EXTRACT_9BITS) s of
        (i, curr_pt, pte) \<Rightarrow> store curr_pt pte 0 s)"

function create_loop :: "u64 \<Rightarrow> nat \<Rightarrow> u64 \<Rightarrow> u64 \<Rightarrow> state \<Rightarrow> nat \<times> u64 \<times> u64 \<times> state" where
  "create_loop vpn i curr_pt pte s =
     (if i < 5 then
        (let s1 = (if load curr_pt pte s mod 2 = 0
                   then (case alloc_page_frame s of
                           (f, s') \<Rightarrow> store curr_pt pte (push_bit 12 f + 1) s')
                   else s)
         in create_loop vpn (i + 1) (phys_to_virt (load curr_pt pte s1 - 1))
              (drop_bit (36 - i * 9) vpn AND EXTRACT_9BITS) s1)
      else (i, curr_pt, pte, s))"
  by pat_completeness auto
termination
  by (relation "measure (\<lambda>(vpn, i, curr_pt, pte, s). 5 - i)") auto

definition create_virtual_memory_mapping :: "u64 \<Rightarrow> u64 \<Rightarrow> u64 \<Rightarrow> state \<Rightarrow> state" where
  "create_virtual_memory_mapping root_pt vpn ppn s =
     (case create_loop vpn 1 root_pt (drop_bit 36 vpn AND EXTRACT_9BITS) s of
        (i, curr_pt, pte, s') \<Rightarrow> store curr_pt pte (push_bit 12 ppn + 1) s')"

text \<open>
  \<^verbatim>\<open>NO_MAPPING\<close> is a macro of \<^verbatim>\<open>os.h\<close>; its value is not in the sources, so
  the two entry points take it as their first argument.
\<close>

definition page_table_update :: "u64 \<Rightarrow> u64 \<Rightarrow> u64 \<Rightarrow> u64 \<Rightarrow> state \<Rightarrow> state" where
  "page_table_update NO_MAPPING pt vpn ppn s =
     (let pt_va = phys_to_virt (push_bit 12 pt)
      in if ppn = NO_MAPPING then destroy_virtual_memory_mapping pt_va vpn s
         else create_virtual_memory_mapping pt_va vpn ppn s)"

text \<open>
  The loop of \<^verbatim>\<open>page_table_query\<close> can leave the function: \<open>Inl r\<close> is
  \<^verbatim>\<open>return r\<close> from inside the loop, \<open>Inr\<close> the loop variables when the loop ends.
  The state is passed through and returned, as for the two mutators.
\<close>

function query_loop ::
  "u64 \<Rightarrow> u64 \<Rightarrow> nat \<Rightarrow> u64 \<Rightarrow> u64 \<Rightarrow> state \<Rightarrow> (u64 + nat \<times> u64 \<times> u64) \<times> state" where
  "query_loop NO_MAPPING vpn i curr_pt pte s =
     (if i < 5 then
        (if load curr_pt pte s mod 2 = 0 then (Inl NO_MAPPING, s)
         else query_loop NO_MAPPING vpn (i + 1) (phys_to_virt (load curr_pt pte s - 1))
                (drop_bit (36 - i * 9) vpn AND EXTRACT_9BITS) s)
      else (Inr (i, curr_pt, pte), s))"
  by pat_completeness auto
termination
  by (relation "measure (\<lambda>(NO_MAPPING, vpn, i, curr_pt, pte, s). 5 - i)") auto

definition page_table_query :: "u64 \<Rightarrow> u64 \<Rightarrow> u64 \<Rightarrow> state \<Rightarrow> u64 \<times> state" where
  "page_table_query NO_MAPPING pt vpn s =
     (case query_loop NO_MAPPING vpn 1 (phys_to_virt (push_bit 12 pt))
             (drop_bit 36 vpn AND EXTRACT_9BITS) s of
        (Inl r, s') \<Rightarrow> (r, s')
      | (Inr (i, curr_pt, pte), s') \<Rightarrow>
          if load curr_pt pte s' mod 2 = 1 then (drop_bit 12 (load curr_pt pte s'), s')
          else (NO_MAPPING, s'))"


section \<open>Notions used to state the properties\<close>

text \<open>
  The result of \<^verbatim>\<open>page_table_query\<close> when its walk starts at an arbitrary point
  of the loop, and the state left by the two mutators when their walks do. The entry
  points are the instances at \<open>i = 1\<close>, the root table and the first index.
\<close>

definition query_from :: "u64 \<Rightarrow> u64 \<Rightarrow> nat \<Rightarrow> u64 \<Rightarrow> u64 \<Rightarrow> state \<Rightarrow> u64" where
  "query_from nm vpn i c p s =
     (case query_loop nm vpn i c p s of
        (Inl r, s') \<Rightarrow> r
      | (Inr (i', c', p'), s') \<Rightarrow>
          if load c' p' s' mod 2 = 1 then drop_bit 12 (load c' p' s') else nm)"

definition create_from :: "u64 \<Rightarrow> u64 \<Rightarrow> nat \<Rightarrow> u64 \<Rightarrow> u64 \<Rightarrow> state \<Rightarrow> state" where
  "create_from vpn ppn i c p s =
     (case create_loop vpn i c p s of
        (i', c', p', s') \<Rightarrow> store c' p' (push_bit 12 ppn + 1) s')"

definition destroy_from :: "u64 \<Rightarrow> nat \<Rightarrow> u64 \<Rightarrow> u64 \<Rightarrow> state \<Rightarrow> state" where
  "destroy_from vpn i c p s =
     (case destroy_loop vpn i c p s of (i', c', p') \<Rightarrow> store c' p' 0 s)"

text \<open>The index that iteration \<open>i\<close> of the loops extracts; \<open>idx vpn 0\<close> is the first.\<close>

definition idx :: "u64 \<Rightarrow> nat \<Rightarrow> u64" where
  "idx vpn i = drop_bit (36 - i * 9) vpn AND EXTRACT_9BITS"

text \<open>
  The path of a virtual page number below a root table: \<open>entry_at vpn root s k = Some (c, p)\<close>
  says that the pointer entries of levels 1 to \<open>k\<close> on the path are valid and that the
  entry of level \<open>k + 1\<close> is entry \<open>p\<close> of the table at \<open>c\<close>; it is \<open>None\<close> when
  one of those pointer entries is invalid. A table pointer is taken out of an entry by
  subtracting one, as in the code.
\<close>

primrec entry_at :: "u64 \<Rightarrow> u64 \<Rightarrow> state \<Rightarrow> nat \<Rightarrow> (u64 \<times> u64) option" where
  "entry_at vpn root s 0 = Some (root, idx vpn 0)"
| "entry_at vpn root s (Suc k) =
     (case entry_at vpn root s k of
        None \<Rightarrow> None
      | Some (c, p) \<Rightarrow>
          if load c p s mod 2 = 0 then None else Some (load c p s - 1, idx vpn (Suc k)))"

text \<open>
  An eight-byte access at a multiple of eight stays inside one entry. \<open>ptrs_aligned\<close>
  says that every table pointer on the path of \<open>vpn\<close> is a multiple of eight; it holds
  whenever the valid entries on the path have bits 1 and 2 clear, as the entries of the
  data model have.
\<close>

definition word_aligned :: "u64 \<Rightarrow> bool" where
  "word_aligned a = (take_bit 3 a = 0)"

definition ptrs_aligned :: "u64 \<Rightarrow> u64 \<Rightarrow> state \<Rightarrow> bool" where
  "ptrs_aligned vpn root s =
     list_all (\<lambda>k. case entry_at vpn root s k of None \<Rightarrow> True | Some (c, p) \<Rightarrow> word_aligned c)
       [0 ..< 5]"

text \<open>
  The entry format of the spec's data model: an entry is zero, or it is a page number
  shifted left by twelve with the valid bit set.
\<close>

definition entry_ok :: "u64 \<Rightarrow> bool" where
  "entry_ok e = (e = 0 \<or> e = push_bit 12 (drop_bit 12 e) + 1)"

text \<open>Every entry of memory, at every multiple of eight, has this format.\<close>

definition entries_ok :: "state \<Rightarrow> bool" where
  "entries_ok s = (\<forall>a. word_aligned a \<longrightarrow> entry_ok (load a 0 s))"




text \<open>A freshly allocated root table in frame 0: all of memory is zero.\<close>

definition empty_table :: state where
  "empty_table = \<lparr>mem = (\<lambda>_. 0), nalloc = 1\<rparr>"

section \<open>Well-formed tables\<close>

text \<open>
  A table frame starts at a multiple of 4096 and has 512 entries, at indices up to
  \<open>0x1ff\<close>. \<open>nodes s h b\<close> are the frames of the tree of height \<open>h\<close> below the
  frame at \<open>b\<close>: the frame itself and, for \<open>h > 0\<close>, the trees below its valid
  entries. The root has height 4; a frame of height 0 holds leaf entries, which are not
  followed. \<open>ptr_nodes\<close> leaves out the frames of height 0.
\<close>

definition aligned :: "u64 \<Rightarrow> bool" where
  "aligned a = (take_bit 12 a = 0)"

primrec nodes :: "state \<Rightarrow> nat \<Rightarrow> u64 \<Rightarrow> u64 set" where
  "nodes s 0 b = {b}"
| "nodes s (Suc h) b =
     insert b (\<Union>j \<in> {j. j \<le> 0x1ff \<and> load b j s mod 2 \<noteq> 0}. nodes s h (load b j s - 1))"

primrec ptr_nodes :: "state \<Rightarrow> nat \<Rightarrow> u64 \<Rightarrow> u64 set" where
  "ptr_nodes s 0 b = {}"
| "ptr_nodes s (Suc h) b =
     insert b (\<Union>j \<in> {j. j \<le> 0x1ff \<and> load b j s mod 2 \<noteq> 0}. ptr_nodes s h (load b j s - 1))"

text \<open>
  The table is a tree: every valid pointer entry leads to a well-formed table one level
  down, no table is reached from itself, and the tables below two entries of one frame
  are disjoint.
\<close>

primrec wft :: "state \<Rightarrow> nat \<Rightarrow> u64 \<Rightarrow> bool" where
  "wft s 0 b = aligned b"
| "wft s (Suc h) b =
     (aligned b \<and>
      (\<forall>j. j \<le> 0x1ff \<and> load b j s mod 2 \<noteq> 0 \<longrightarrow>
           wft s h (load b j s - 1) \<and> b \<notin> nodes s h (load b j s - 1)) \<and>
      (\<forall>j k. j \<le> 0x1ff \<and> k \<le> 0x1ff \<and> j \<noteq> k \<and> load b j s mod 2 \<noteq> 0 \<and> load b k s mod 2 \<noteq> 0 \<longrightarrow>
           nodes s h (load b j s - 1) \<inter> nodes s h (load b k s - 1) = {}))"

text \<open>
  The frames the allocator has not handed out yet, with numbers that fit the 52-bit field
  of an entry. The allocator's contract in the spec (fresh, zero-initialised frames) is
  \<open>fresh_frames\<close>: no table of the tree is one of these frames, and they are filled with
  zeros.
\<close>

definition free_frames :: "state \<Rightarrow> u64 set" where
  "free_frames s = {push_bit 12 f | f. nalloc s \<le> f \<and> f < 2 ^ 52}"

definition fresh_frames :: "state \<Rightarrow> nat \<Rightarrow> u64 \<Rightarrow> bool" where
  "fresh_frames s h b =
     (nodes s h b \<inter> free_frames s = {} \<and>
      (\<forall>n j. n \<in> free_frames s \<and> j \<le> 0x1ff \<longrightarrow> load n j s = 0))"

definition wf_table :: "state \<Rightarrow> u64 \<Rightarrow> bool" where
  "wf_table s pt = (wft s 4 (push_bit 12 pt) \<and> fresh_frames s 4 (push_bit 12 pt))"

text \<open>
  What one run of the create walk from loop counter \<open>i\<close>, table \<open>b\<close> of height \<open>h\<close>
  and index \<open>p\<close> achieves, from state \<open>s\<close> to state \<open>s'\<close>: the tree stays well
  formed, new tables come from the free frames, memory outside the tree and the free frames
  is unchanged, the walked page number resolves to the low 52 bits of \<open>ppn\<close>, every
  walk that leaves this one at some level resolves as before, and the path is valid.
\<close>

definition create_post ::
  "u64 \<Rightarrow> u64 \<Rightarrow> u64 \<Rightarrow> nat \<Rightarrow> nat \<Rightarrow> u64 \<Rightarrow> u64 \<Rightarrow> state \<Rightarrow> state \<Rightarrow> bool" where
  "create_post nm vpn ppn i h b p s s' =
     (wft s' h b \<and> fresh_frames s' h b \<and>
      nodes s' h b \<subseteq> nodes s h b \<union> free_frames s \<and>
      free_frames s' \<subseteq> free_frames s \<and>
      (\<forall>n j. aligned n \<and> j \<le> 0x1ff \<and> n \<notin> nodes s h b \<and> n \<notin> free_frames s \<longrightarrow>
             load n j s' = load n j s) \<and>
      query_from nm vpn i b p s' = take_bit 52 ppn \<and>
      (\<forall>vpn2 p2. p2 \<le> 0x1ff \<and> (p2 \<noteq> p \<or> (\<exists>k. i \<le> k \<and> k < 5 \<and> idx vpn2 k \<noteq> idx vpn k)) \<longrightarrow>
             query_from nm vpn2 i b p2 s' = query_from nm vpn2 i b p2 s) \<and>
      fst (destroy_loop vpn i b p s') = 5)"

text \<open>The table with the single mapping of page \<open>0x1000\<close> to frame 7.\<close>

definition mapped_table :: state where
  "mapped_table = page_table_update (- 1) 0 0x1000 7 empty_table"


text \<open>
  Three tables that the operations above do not build. In \<open>stale_table\<close> the first
  entry of the root in frame 0 is 2: invalid, but not zero. In \<open>looped_table\<close> it is 1:
  a valid pointer to frame 0, the root itself. In \<open>skewed_table\<close> the root is frame
  \<open>0x200000\<close> and its first entry is valid with bit 2 set, so that the pointer taken
  from it is four bytes into the root; a chain of tables that starts at address 4 maps
  page 0 to frame 7.
\<close>

definition stale_table :: state where
  "stale_table = store 0 0 2 empty_table"

definition looped_table :: state where
  "looped_table = store 0 0 1 empty_table"

definition skewed_table :: state where
  "skewed_table =
     store 0x4000 0 0x7001 (store 0x3000 0 0x4001 (store 0x2000 0 0x3001
       (store 4 0 0x2001 (store 0x200000000 0 0x200000005 empty_table))))"

section \<open>Bytes and entries\<close>

declare destroy_loop.simps [simp del] create_loop.simps [simp del] query_loop.simps [simp del]

lemma byte_bit:
  "bit (push_bit k (ucast (b :: u8)) :: u64) n \<longleftrightarrow> k \<le> n \<and> n < 64 \<and> n - k < 8 \<and> bit b (n - k)"
  by (auto simp add: bit_simps dest: bit_imp_le_length)

lemma byte_bit0: "bit (ucast (b :: u8) :: u64) n \<longleftrightarrow> n < 8 \<and> bit b n"
  by (auto simp add: bit_simps dest: bit_imp_le_length)

lemma byte_of_bit: "bit (ucast (drop_bit k (v :: u64)) :: u8) n \<longleftrightarrow> n < 8 \<and> bit v (k + n)"
  by (auto simp add: bit_simps)

lemma byte_of_bit0: "bit (ucast (v :: u64) :: u8) n \<longleftrightarrow> n < 8 \<and> bit v n"
  by (auto simp add: bit_simps)

lemma word_byte_bit:
  "bit (push_bit k (ucast (ucast (drop_bit k v) :: u8)) :: u64) n \<longleftrightarrow>
     k \<le> n \<and> n < k + 8 \<and> n < 64 \<and> bit (v :: u64) n"
  by (auto simp add: bit_simps)

lemma word_byte_bit0: "bit (ucast (ucast v :: u8) :: u64) n \<longleftrightarrow> n < 8 \<and> bit (v :: u64) n"
  by (auto simp add: bit_simps)

lemma bytes_join:
  "ucast (ucast v :: u8) OR push_bit 8 (ucast (ucast (drop_bit 8 v) :: u8)) OR
   push_bit 16 (ucast (ucast (drop_bit 16 v) :: u8)) OR
   push_bit 24 (ucast (ucast (drop_bit 24 v) :: u8)) OR
   push_bit 32 (ucast (ucast (drop_bit 32 v) :: u8)) OR
   push_bit 40 (ucast (ucast (drop_bit 40 v) :: u8)) OR
   push_bit 48 (ucast (ucast (drop_bit 48 v) :: u8)) OR
   push_bit 56 (ucast (ucast (drop_bit 56 v) :: u8))
   = (v :: u64)"
proof (rule bit_word_eqI)
  fix n assume "n < LENGTH(64)"
  hence n: "n < 8 \<or> (8 \<le> n \<and> n < 16) \<or> (16 \<le> n \<and> n < 24) \<or> (24 \<le> n \<and> n < 32) \<or>
     (32 \<le> n \<and> n < 40) \<or> (40 \<le> n \<and> n < 48) \<or> (48 \<le> n \<and> n < 56) \<or> (56 \<le> n \<and> n < 64)"
    by simp linarith
  show "bit (ucast (ucast v :: u8) OR push_bit 8 (ucast (ucast (drop_bit 8 v) :: u8)) OR
   push_bit 16 (ucast (ucast (drop_bit 16 v) :: u8)) OR
   push_bit 24 (ucast (ucast (drop_bit 24 v) :: u8)) OR
   push_bit 32 (ucast (ucast (drop_bit 32 v) :: u8)) OR
   push_bit 40 (ucast (ucast (drop_bit 40 v) :: u8)) OR
   push_bit 48 (ucast (ucast (drop_bit 48 v) :: u8)) OR
   push_bit 56 (ucast (ucast (drop_bit 56 v) :: u8)) :: u64) n = bit v n"
    unfolding bit_or_iff word_byte_bit word_byte_bit0
    using n by (elim disjE) simp_all
qed

lemma load_store_same: "load c p (store c p v s) = v"
  by (simp add: load_def store_def Let_def bytes_join)

lemma load_nalloc [simp]: "load n j (s\<lparr>nalloc := x\<rparr>) = load n j s"
  by (simp add: load_def)

lemma nalloc_store [simp]: "nalloc (store c p v s) = nalloc s"
  by (simp add: store_def Let_def)

lemma word_aligned_dvd: "word_aligned a \<Longrightarrow> 8 dvd unat a"
proof -
  assume "word_aligned a"
  hence "unat (take_bit 3 a) = 0" by (simp add: word_aligned_def)
  hence "take_bit 3 (unat a) = 0" by (simp add: unsigned_take_bit_eq)
  thus ?thesis by (simp add: take_bit_eq_0_iff)
qed

lemma unat_byte:
  assumes "word_aligned a" "j \<le> 7"
  shows "unat (a + j) = unat a + unat j"
proof -
  have j: "unat j \<le> 7" using assms(2) by (simp add: word_le_nat_alt)
  have a: "unat a < 2 ^ 64" using unsigned_less[of a] by simp
  from word_aligned_dvd[OF assms(1)] obtain m where m: "unat a = 8 * m" by (auto simp: dvd_def)
  with a have "m < 2 ^ 61" by simp
  hence "unat a + unat j < 2 ^ 64" using m j by simp
  thus ?thesis by (simp add: unat_word_ariths)
qed

lemma byte_split:
  assumes "8 * m + j = 8 * m' + k" "j \<le> 7" "k \<le> 7"
  shows "m = (m' :: nat)"
proof -
  have "(8 * m + j) div 8 = (8 * m' + k) div 8" using assms(1) by simp
  thus ?thesis using assms(2,3) by simp
qed

lemma aligned_byte_ne:
  assumes "word_aligned a" "word_aligned a'" "a \<noteq> a'" "j \<le> 7" "k \<le> 7"
  shows "a + j \<noteq> a' + k"
proof
  assume e: "a + j = a' + k"
  have i: "unat j \<le> 7" "unat k \<le> 7" using assms(4,5) by (simp_all add: word_le_nat_alt)
  from word_aligned_dvd[OF assms(1)] obtain m where m: "unat a = 8 * m" by (auto simp: dvd_def)
  from word_aligned_dvd[OF assms(2)] obtain m' where m': "unat a' = 8 * m'" by (auto simp: dvd_def)
  have "unat a + unat j = unat a' + unat k"
    using e unat_byte[OF assms(1,4)] unat_byte[OF assms(2,5)] by simp
  hence "8 * m + unat j = 8 * m' + unat k" by (simp only: m m')
  from byte_split[OF this i] m m' have "unat a = unat a'" by simp
  with assms(3) show False by (simp add: word_unat_eq_iff)
qed

lemma mem_store_other:
  assumes "word_aligned (c + 8 * p)" "word_aligned x" "x \<noteq> c + 8 * p" "k \<le> 7"
  shows "mem (store c p v s) (x + k) = mem s (x + k)"
proof -
  note ne = aligned_byte_ne[OF assms(2,1,3,4)]
  from ne[of 0] ne[of 1] ne[of 2] ne[of 3] ne[of 4] ne[of 5] ne[of 6] ne[of 7]
  show ?thesis by (simp add: store_def Let_def)
qed

lemma load_store_apart:
  assumes "word_aligned (n + 8 * j)" "word_aligned (c + 8 * p)" "n + 8 * j \<noteq> c + 8 * p"
  shows "load n j (store c p v s) = load n j s"
proof -
  note m = mem_store_other[OF assms(2,1,3), of _ v s]
  from m[of 0] m[of 1] m[of 2] m[of 3] m[of 4] m[of 5] m[of 6] m[of 7]
  show ?thesis by (simp add: load_def Let_def)
qed

lemma load_store:
  assumes "word_aligned (c + 8 * p)" "word_aligned (c' + 8 * p')"
  shows "load c p (store c' p' v s) = (if c + 8 * p = c' + 8 * p' then v else load c p s)"
proof (cases "c + 8 * p = c' + 8 * p'")
  case True
  have "load c p (store c' p' v s) = load (c + 8 * p) 0 (store (c' + 8 * p') 0 v s)"
    by (simp add: load_def store_def)
  with True show ?thesis by (simp add: load_store_same)
next
  case False
  with load_store_apart[OF assms False] show ?thesis by simp
qed

lemma word_aligned_cell: "word_aligned c \<Longrightarrow> word_aligned (c + 8 * p)"
proof -
  assume "word_aligned c"
  hence "2 ^ 3 dvd c" by (simp only: word_aligned_def take_bit_eq_0_iff)
  hence "2 ^ 3 dvd c + 8 * p" by simp
  thus ?thesis by (simp only: word_aligned_def take_bit_eq_0_iff)
qed

lemma byte_push_zero:
  assumes "push_bit k (ucast (b :: u8) :: u64) = 0" "k \<le> 56"
  shows "b = 0"
proof (rule bit_word_eqI)
  fix n assume "n < LENGTH(8)"
  hence n: "n < 8" by simp
  have "bit (push_bit k (ucast b) :: u64) (k + n) = bit b n"
    using n assms(2) by (simp add: byte_bit)
  thus "bit b n = bit (0 :: u8) n" by (simp add: assms(1))
qed

lemma store_zero_same:
  assumes "load c p s = 0"
  shows "store c p 0 s = s"
proof -
  define a where "a = c + 8 * p"
  from assms have
    "(ucast (mem s a) :: u64) = 0" "push_bit 8 (ucast (mem s (a + 1)) :: u64) = 0"
    "push_bit 16 (ucast (mem s (a + 2)) :: u64) = 0" "push_bit 24 (ucast (mem s (a + 3)) :: u64) = 0"
    "push_bit 32 (ucast (mem s (a + 4)) :: u64) = 0" "push_bit 40 (ucast (mem s (a + 5)) :: u64) = 0"
    "push_bit 48 (ucast (mem s (a + 6)) :: u64) = 0" "push_bit 56 (ucast (mem s (a + 7)) :: u64) = 0"
    by (simp_all add: load_def Let_def a_def or_eq_0_iff)
  hence z: "mem s a = 0" "mem s (a + 1) = 0" "mem s (a + 2) = 0" "mem s (a + 3) = 0"
    "mem s (a + 4) = 0" "mem s (a + 5) = 0" "mem s (a + 6) = 0" "mem s (a + 7) = 0"
    using byte_push_zero[of 0 "mem s a"] by (simp_all add: byte_push_zero)
  have "(mem s)(a := 0, a + 1 := 0, a + 2 := 0, a + 3 := 0, a + 4 := 0, a + 5 := 0,
          a + 6 := 0, a + 7 := 0) = mem s"
    by (rule ext) (simp add: z)
  thus ?thesis by (simp add: store_def Let_def a_def)
qed

lemma load_empty_table [simp]: "load n j empty_table = 0"
  by (simp add: load_def empty_table_def)

lemma page_word_aligned: "aligned c \<Longrightarrow> word_aligned c"
proof -
  assume "aligned c"
  hence "take_bit 3 (take_bit 12 c) = 0" by (simp add: aligned_def)
  thus ?thesis by (simp add: word_aligned_def min_def)
qed

section \<open>Basic facts about the loops\<close>

lemma destroy_loop_step:
  "i < 5 \<Longrightarrow> destroy_loop vpn i c p s =
     (if load c p s mod 2 = 0 then (i, c, p)
      else destroy_loop vpn (i + 1) (load c p s - 1) (idx vpn i) s)"
  by (simp add: destroy_loop.simps[of vpn i] phys_to_virt_def idx_def)

lemma destroy_loop_exit: "\<not> i < 5 \<Longrightarrow> destroy_loop vpn i c p s = (i, c, p)"
  by (simp add: destroy_loop.simps[of vpn i])

lemma query_loop_step:
  "i < 5 \<Longrightarrow> query_loop nm vpn i c p s =
     (if load c p s mod 2 = 0 then (Inl nm, s)
      else query_loop nm vpn (i + 1) (load c p s - 1) (idx vpn i) s)"
  by (simp add: query_loop.simps[of nm vpn i] phys_to_virt_def idx_def)

lemma query_loop_exit: "\<not> i < 5 \<Longrightarrow> query_loop nm vpn i c p s = (Inr (i, c, p), s)"
  by (simp add: query_loop.simps[of nm vpn i])

lemma create_loop_step:
  "i < 5 \<Longrightarrow> create_loop vpn i c p s =
     (if load c p s mod 2 = 0
      then create_loop vpn (i + 1) (push_bit 12 (nalloc s)) (idx vpn i)
             (store c p (push_bit 12 (nalloc s) + 1) (s\<lparr>nalloc := nalloc s + 1\<rparr>))
      else create_loop vpn (i + 1) (load c p s - 1) (idx vpn i) s)"
  by (simp add: create_loop.simps[of vpn i] phys_to_virt_def idx_def alloc_page_frame_def
      load_store_same)

lemma create_loop_exit: "\<not> i < 5 \<Longrightarrow> create_loop vpn i c p s = (i, c, p, s)"
  by (simp add: create_loop.simps[of vpn i])

lemma query_from_step:
  "i < 5 \<Longrightarrow> query_from nm vpn i c p s =
     (if load c p s mod 2 = 0 then nm
      else query_from nm vpn (i + 1) (load c p s - 1) (idx vpn i) s)"
  by (simp add: query_from_def query_loop_step)

lemma query_from_leaf:
  "\<not> i < 5 \<Longrightarrow> query_from nm vpn i c p s =
     (if load c p s mod 2 = 1 then drop_bit 12 (load c p s) else nm)"
  by (simp add: query_from_def query_loop_exit)

lemma create_from_step:
  "i < 5 \<Longrightarrow> create_from vpn ppn i c p s =
     (if load c p s mod 2 = 0
      then create_from vpn ppn (i + 1) (push_bit 12 (nalloc s)) (idx vpn i)
             (store c p (push_bit 12 (nalloc s) + 1) (s\<lparr>nalloc := nalloc s + 1\<rparr>))
      else create_from vpn ppn (i + 1) (load c p s - 1) (idx vpn i) s)"
  by (simp add: create_from_def create_loop_step)

lemma create_from_leaf:
  "\<not> i < 5 \<Longrightarrow> create_from vpn ppn i c p s = store c p (push_bit 12 ppn + 1) s"
  by (simp add: create_from_def create_loop_exit)

lemma query_loop_state: "snd (query_loop nm vpn i c p s) = s"
  by (induction nm vpn i c p s rule: query_loop.induct) (subst query_loop.simps, simp)

lemma fst_page_table_query:
  "fst (page_table_query nm pt vpn s) = query_from nm vpn 1 (push_bit 12 pt) (idx vpn 0) s"
  by (simp add: page_table_query_def query_from_def phys_to_virt_def idx_def
      split: prod.splits sum.splits)

lemma update_create:
  "ppn \<noteq> nm \<Longrightarrow>
   page_table_update nm pt vpn ppn s = create_from vpn ppn 1 (push_bit 12 pt) (idx vpn 0) s"
  by (simp add: page_table_update_def create_virtual_memory_mapping_def create_from_def
      phys_to_virt_def idx_def)

lemma update_destroy:
  "page_table_update nm pt vpn nm s = destroy_from vpn 1 (push_bit 12 pt) (idx vpn 0) s"
  by (simp add: page_table_update_def destroy_virtual_memory_mapping_def destroy_from_def
      phys_to_virt_def idx_def)

section \<open>Entries and indices as bit patterns\<close>

lemma ptr_or: "push_bit 12 n + 1 = push_bit 12 (n::u64) OR 1"
  by (rule disjunctive_add_eq_or) (rule bit_word_eqI, simp add: bit_simps)

lemma drop_ptr: "drop_bit 12 (push_bit 12 n + 1) = take_bit 52 (n::u64)"
  unfolding ptr_or by (rule bit_word_eqI) (auto simp add: bit_simps)

lemma entry_ok_ptr: "entry_ok (push_bit 12 n + 1)"
proof -
  have "push_bit 12 (take_bit 52 n) = push_bit 12 (n::u64)"
    by (rule bit_word_eqI) (auto simp add: bit_simps)
  thus ?thesis by (simp add: entry_ok_def drop_ptr)
qed

lemma drop_ptr_small: 
  assumes "n < 2^52" shows "drop_bit 12 (push_bit 12 n + 1) = (n::u64)"
proof -
  have "take_bit 52 n = n" using less_mask_eq[OF assms] by (simp only: take_bit_eq_mask)
  thus ?thesis by (simp only: drop_ptr)
qed

lemma ptr_mod2: "(push_bit 12 n + (1::u64)) mod 2 = 1"
  by (simp add: odd_iff_mod_2_eq_one[symmetric])

lemma push_bit_inj: 
  assumes "f < 2^52" "g < 2^52" "push_bit 12 f = push_bit 12 (g::u64)" shows "f = g"
proof -
  have "drop_bit 12 (push_bit 12 f + 1) = drop_bit 12 (push_bit 12 g + 1)" 
    using assms(3) by simp
  thus ?thesis by (simp only: drop_ptr_small[OF assms(1)] drop_ptr_small[OF assms(2)])
qed

section \<open>Unmapping, and the bits of the page number that matter\<close>

lemma destroy_loop_path:
  "entry_at vpn root s k = Some (c, p) \<Longrightarrow> i = Suc k \<Longrightarrow> i \<le> 5 \<Longrightarrow>
   destroy_loop vpn i c p s = (i', c', p') \<Longrightarrow>
   i \<le> i' \<and> i' \<le> 5 \<and> entry_at vpn root s (i' - 1) = Some (c', p') \<and>
   (i' < 5 \<longrightarrow> load c' p' s mod 2 = 0)"
proof (induction vpn i c p s arbitrary: k rule: destroy_loop.induct)
  case (1 vpn i c p s)
  note IH = "1.IH"[unfolded phys_to_virt_def, folded idx_def]
  show ?case
  proof (cases "i < 5")
    case False
    with "1.prems" show ?thesis by (auto simp add: destroy_loop_exit)
  next
    case True
    show ?thesis
    proof (cases "load c p s mod 2 = 0")
      case even: True
      with True "1.prems" show ?thesis by (auto simp add: destroy_loop_step)
    next
      case odd: False
      have e: "entry_at vpn root s (Suc k) = Some (load c p s - 1, idx vpn i)"
        using "1.prems"(1,2) odd by simp
      have l: "destroy_loop vpn (i + 1) (load c p s - 1) (idx vpn i) s = (i', c', p')"
        using "1.prems"(4) True odd by (simp add: destroy_loop_step)
      from IH[OF True odd e _ _ l] "1.prems"(2) True show ?thesis by simp
    qed
  qed
qed

lemma query_loop_destroy:
  "query_loop nm vpn i c p s =
     (case destroy_loop vpn i c p s of
        (i', c', p') \<Rightarrow> (if i' < 5 then Inl nm else Inr (i', c', p'), s))"
proof (induction vpn i c p s rule: destroy_loop.induct)
  case (1 vpn i c p s)
  note IH = "1.IH"[unfolded phys_to_virt_def, folded idx_def]
  show ?case
  proof (cases "i < 5")
    case False
    then show ?thesis by (simp add: destroy_loop_exit query_loop_exit)
  next
    case True
    with IH show ?thesis
      by (cases "load c p s mod 2 = 0") (simp_all add: destroy_loop_step query_loop_step)
  qed
qed

lemma ptrs_aligned_iff:
  "ptrs_aligned vpn root s \<longleftrightarrow>
     (\<forall>k c p. k < 5 \<and> entry_at vpn root s k = Some (c, p) \<longrightarrow> word_aligned c)"
  unfolding ptrs_aligned_def list_all_iff by (fastforce split: option.splits)

lemma ptrs_alignedD:
  "ptrs_aligned vpn root s \<Longrightarrow> entry_at vpn root s k = Some (c, p) \<Longrightarrow> k < 5 \<Longrightarrow>
   word_aligned (c + 8 * p)"
  by (rule word_aligned_cell) (auto simp add: ptrs_aligned_iff)

lemma destroy_then_query:
  "ptrs_aligned vpn root s \<Longrightarrow> entry_at vpn root s k = Some (c, p) \<Longrightarrow> i = Suc k \<Longrightarrow>
   i \<le> 5 \<Longrightarrow> destroy_loop vpn i c p s = (i', c', p') \<Longrightarrow>
   query_from nm vpn i c p (store c' p' 0 s) = nm"
proof (induction vpn i c p s arbitrary: k rule: destroy_loop.induct)
  case (1 vpn i c p s)
  note IH = "1.IH"[unfolded phys_to_virt_def, folded idx_def]
  note al = "1.prems"(1)
  have k: "k < 5" using "1.prems"(3,4) by simp
  have ac: "word_aligned (c + 8 * p)" by (rule ptrs_alignedD[OF al "1.prems"(2) k])
  from destroy_loop_path[OF "1.prems"(2,3,4,5)] "1.prems"(3)
  have "entry_at vpn root s (i' - 1) = Some (c', p')" "i' - 1 < 5" by auto
  hence ac': "word_aligned (c' + 8 * p')" by (rule ptrs_alignedD[OF al])
  note ls = load_store[OF ac ac']
  show ?case
  proof (cases "i < 5")
    case False
    with "1.prems"(5) show ?thesis
      by (simp add: destroy_loop_exit query_from_leaf load_store_same)
  next
    case True
    show ?thesis
    proof (cases "load c p s mod 2 = 0")
      case even: True
      with True "1.prems"(5) show ?thesis
        by (simp add: destroy_loop_step query_from_step load_store_same)
    next
      case odd: False
      have e: "entry_at vpn root s (Suc k) = Some (load c p s - 1, idx vpn i)"
        using "1.prems"(2,3) odd by simp
      have l: "destroy_loop vpn (i + 1) (load c p s - 1) (idx vpn i) s = (i', c', p')"
        using "1.prems"(5) True odd by (simp add: destroy_loop_step)
      have "query_from nm vpn (i + 1) (load c p s - 1) (idx vpn i) (store c' p' 0 s) = nm"
        using IH[OF True odd al e _ _ l] "1.prems"(3) True by simp
      with True odd show ?thesis by (simp add: query_from_step ls)
    qed
  qed
qed





lemma destroy_loop_break:
  "destroy_loop vpn i c p s = (i', c', p') \<Longrightarrow> i' < 5 \<Longrightarrow> load c' p' s mod 2 = 0"
proof (induction vpn i c p s rule: destroy_loop.induct)
  case (1 vpn i c p s)
  then show ?case
    by (cases "i < 5"; cases "load c p s mod 2 = 0")
       (simp_all add: destroy_loop_step destroy_loop_exit phys_to_virt_def idx_def)
qed



lemma idx_low45:
  assumes "take_bit 45 v1 = take_bit 45 (v2::u64)"
  shows "idx v1 i = idx v2 i"
proof -
  have m: "EXTRACT_9BITS = mask 9" by (simp add: EXTRACT_9BITS_def mask_eq_exp_minus_1)
  define k where "k = 36 - i * 9"
  have k: "k \<le> 36" by (simp add: k_def)
  have a: "take_bit (k + 9) v = take_bit (k + 9) (take_bit 45 v)" for v :: u64
    using k by (simp add: min_def)
  have b: "take_bit 9 (drop_bit k v) = drop_bit k (take_bit (k + 9) v)" for v :: u64
    by (simp add: drop_bit_take_bit)
  have "take_bit (k + 9) v1 = take_bit (k + 9) v2"
    by (subst a, subst (2) a) (simp only: assms)
  hence "take_bit 9 (drop_bit k v1) = take_bit 9 (drop_bit k v2)" by (simp only: b)
  thus ?thesis by (simp add: idx_def m k_def flip: take_bit_eq_mask)
qed

lemma query_loop_low45:
  "take_bit 45 v1 = take_bit 45 v2 \<Longrightarrow> query_loop nm v1 i c p s = query_loop nm v2 i c p s"
proof (induction nm v1 i c p s rule: query_loop.induct)
  case (1 nm v1 i c p s)
  show ?case
  proof (cases "i < 5")
    case True
    with 1 show ?thesis 
      by (simp add: query_loop_step[unfolded idx_def] idx_low45[OF "1.prems", unfolded idx_def]
          phys_to_virt_def)
  qed (simp add: query_loop_exit)
qed

lemma destroy_loop_low45:
  "take_bit 45 v1 = take_bit 45 v2 \<Longrightarrow> destroy_loop v1 i c p s = destroy_loop v2 i c p s"
proof (induction v1 i c p s rule: destroy_loop.induct)
  case (1 v1 i c p s)
  show ?case
  proof (cases "i < 5")
    case True
    with 1 show ?thesis 
      by (simp add: destroy_loop_step[unfolded idx_def] idx_low45[OF "1.prems", unfolded idx_def]
          phys_to_virt_def)
  qed (simp add: destroy_loop_exit)
qed

lemma create_loop_low45:
  "take_bit 45 v1 = take_bit 45 v2 \<Longrightarrow> create_loop v1 i c p s = create_loop v2 i c p s"
proof (induction v1 i c p s rule: create_loop.induct)
  case (1 v1 i c p s)
  show ?case
  proof (cases "i < 5")
    case True
    note t = this
    show ?thesis
    proof (cases "load c p s mod 2 = 0")
      case True
      with t "1.IH"[OF t refl] "1.prems" show ?thesis
        by (simp add: create_loop_step[unfolded idx_def] idx_low45[OF "1.prems", unfolded idx_def]
            phys_to_virt_def alloc_page_frame_def load_store_same)
    next
      case False
      with t "1.IH"[OF t refl] "1.prems" show ?thesis
        by (simp add: create_loop_step[unfolded idx_def] idx_low45[OF "1.prems", unfolded idx_def]
            phys_to_virt_def)
    qed
  qed (simp add: create_loop_exit)
qed

section \<open>The entry format and the loop counter\<close>

lemma load_cell: "load c p s = load (c + 8 * p) 0 s"
  by (simp add: load_def)

lemma entries_ok_load: "entries_ok s \<Longrightarrow> word_aligned c \<Longrightarrow> entry_ok (load c p s)"
  using word_aligned_cell[of c p] by (subst load_cell) (simp add: entries_ok_def)

lemma entries_ok_store:
  assumes "entries_ok s" "word_aligned c" "entry_ok v"
  shows "entries_ok (store c p v s)"
  unfolding entries_ok_def
proof (intro allI impI)
  fix a assume a: "word_aligned a"
  hence "word_aligned (a + 8 * 0)" by simp
  from load_store[OF this word_aligned_cell[OF assms(2)], of p v s] a assms(1,3)
  show "entry_ok (load a 0 (store c p v s))" by (simp add: entries_ok_def)
qed

lemma entries_ok_nalloc [simp]: "entries_ok (s\<lparr>nalloc := x\<rparr>) = entries_ok s"
  by (simp add: entries_ok_def)

lemma entry_ok_next:
  assumes "entry_ok e" "e mod 2 \<noteq> 0"
  shows "word_aligned (e - 1)"
proof -
  from assms have "e = push_bit 12 (drop_bit 12 e) + 1" by (auto simp add: entry_ok_def)
  hence "e - 1 = push_bit 12 (drop_bit 12 e)" by (metis add_diff_cancel_right')
  moreover have "take_bit 3 (push_bit 12 (drop_bit 12 e)) = 0" by (simp add: take_bit_push_bit)
  ultimately show ?thesis by (simp add: word_aligned_def)
qed

lemma word_aligned_push: "word_aligned (push_bit 12 n)"
  by (simp add: word_aligned_def take_bit_push_bit)

lemma destroy_loop_aligned:
  "entries_ok s \<Longrightarrow> word_aligned c \<Longrightarrow> destroy_loop vpn i c p s = (i', c', p') \<Longrightarrow>
   word_aligned c'"
proof (induction vpn i c p s rule: destroy_loop.induct)
  case (1 vpn i c p s)
  note IH = "1.IH"[unfolded phys_to_virt_def, folded idx_def]
  show ?case
  proof (cases "i < 5")
    case False
    with "1.prems" show ?thesis by (simp add: destroy_loop_exit)
  next
    case True
    show ?thesis
    proof (cases "load c p s mod 2 = 0")
      case even: True
      with True "1.prems" show ?thesis by (simp add: destroy_loop_step)
    next
      case odd: False
      have n: "word_aligned (load c p s - 1)"
        by (rule entry_ok_next[OF entries_ok_load[OF "1.prems"(1,2)] odd])
      from "1.prems"(3) True odd
      have "destroy_loop vpn (i + 1) (load c p s - 1) (idx vpn i) s = (i', c', p')"
        by (simp add: destroy_loop_step)
      from IH[OF True odd "1.prems"(1) n this] show ?thesis .
    qed
  qed
qed

lemma create_loop_ok:
  "entries_ok s \<Longrightarrow> word_aligned c \<Longrightarrow> create_loop vpn i c p s = (i', c', p', s') \<Longrightarrow>
   entries_ok s' \<and> word_aligned c'"
proof (induction vpn i c p s rule: create_loop.induct)
  case (1 vpn i c p s)
  show ?case
  proof (cases "i < 5")
    case False
    with "1.prems" show ?thesis by (simp add: create_loop_exit)
  next
    case True
    note t = this
    show ?thesis
    proof (cases "load c p s mod 2 = 0")
      case True
      define s1 where "s1 = store c p (push_bit 12 (nalloc s) + 1) (s\<lparr>nalloc := nalloc s + 1\<rparr>)"
      have 1: "entries_ok s1"
        unfolding s1_def using "1.prems"(1,2) by (simp add: entries_ok_store entry_ok_ptr)
      have 2: "create_loop vpn (i + 1) (push_bit 12 (nalloc s)) (idx vpn i) s1 = (i', c', p', s')"
        using "1.prems"(3) t True by (simp add: create_loop_step s1_def)
      from "1.IH"[OF t refl] True 1 2 show ?thesis
        by (simp add: phys_to_virt_def alloc_page_frame_def load_store_same s1_def
            word_aligned_push idx_def)
    next
      case False
      have n: "word_aligned (load c p s - 1)"
        by (rule entry_ok_next[OF entries_ok_load[OF "1.prems"(1,2)] False])
      have 2: "create_loop vpn (i + 1) (load c p s - 1) (idx vpn i) s = (i', c', p', s')"
        using "1.prems"(3) t False by (simp add: create_loop_step)
      from "1.IH"[OF t refl] False "1.prems"(1) n 2 show ?thesis
        by (simp add: phys_to_virt_def idx_def)
    qed
  qed
qed

lemma update_ok:
  assumes "entries_ok s" shows "entries_ok (page_table_update nm pt vpn ppn s)"
proof (cases "ppn = nm")
  case True
  obtain i' c' p' where l: "destroy_loop vpn 1 (push_bit 12 pt) (idx vpn 0) s = (i', c', p')"
    by (cases "destroy_loop vpn 1 (push_bit 12 pt) (idx vpn 0) s")
  have "word_aligned c'" by (rule destroy_loop_aligned[OF assms word_aligned_push l])
  hence "entries_ok (store c' p' 0 s)" using assms by (simp add: entries_ok_store entry_ok_def)
  with True l show ?thesis by (simp add: update_destroy destroy_from_def)
next
  case False
  obtain i' c' p' s' where l: "create_loop vpn 1 (push_bit 12 pt) (idx vpn 0) s = (i', c', p', s')"
    by (cases "create_loop vpn 1 (push_bit 12 pt) (idx vpn 0) s")
  from create_loop_ok[OF assms word_aligned_push l]
  have "entries_ok (store c' p' (push_bit 12 ppn + 1) s')"
    by (simp add: entries_ok_store entry_ok_ptr)
  with False l show ?thesis by (simp add: update_create create_from_def)
qed



lemma create_loop_i: "i \<le> 5 \<Longrightarrow> fst (create_loop vpn i c p s) = 5"
proof (induction vpn i c p s rule: create_loop.induct)
  case (1 vpn i c p s)
  show ?case
  proof (cases "i < 5")
    case True
    with 1 show ?thesis
      by (cases "load c p s mod 2 = 0")
         (simp_all add: create_loop_step[unfolded idx_def] phys_to_virt_def alloc_page_frame_def
            load_store_same)
  next
    case False
    with "1.prems" show ?thesis by (simp add: create_loop_exit)
  qed
qed

lemma destroy_loop_i: "i \<le> 5 \<Longrightarrow> i \<le> fst (destroy_loop vpn i c p s) \<and> fst (destroy_loop vpn i c p s) \<le> 5"
proof (induction vpn i c p s rule: destroy_loop.induct)
  case (1 vpn i c p s)
  show ?case
  proof (cases "i < 5")
    case True
    with 1 show ?thesis
      by (cases "load c p s mod 2 = 0")
         (simp_all add: destroy_loop_step[unfolded idx_def] phys_to_virt_def)
  next
    case False
    with "1.prems" show ?thesis by (simp add: destroy_loop_exit)
  qed
qed

lemma query_loop_i:
  "i \<le> 5 \<Longrightarrow> (case fst (query_loop nm vpn i c p s) of Inl r \<Rightarrow> r = nm | Inr (i', c', p') \<Rightarrow> i' = 5)"
proof (induction nm vpn i c p s rule: query_loop.induct)
  case (1 nm vpn i c p s)
  show ?case
  proof (cases "i < 5")
    case True
    with 1 show ?thesis
      by (cases "load c p s mod 2 = 0")
         (simp_all add: query_loop_step[unfolded idx_def] phys_to_virt_def)
  next
    case False
    with "1.prems" show ?thesis by (simp add: query_loop_exit)
  qed
qed

text \<open>
  Running the code on a concrete input: \<open>run_code\<close> where every access is at a multiple
  of eight, so that a load sees the last store to its address; \<open>run_bytes\<close> byte by byte.
\<close>

lemma nalloc_empty_table [simp]: "nalloc empty_table = 1"
  by (simp add: empty_table_def)

lemmas run_code = page_table_query_def page_table_update_def create_virtual_memory_mapping_def
  destroy_virtual_memory_mapping_def destroy_loop_step destroy_loop_exit create_loop_step
  create_loop_exit query_loop_step query_loop_exit phys_to_virt_def EXTRACT_9BITS_def idx_def
  load_store word_aligned_def

lemmas run_bytes = page_table_query_def page_table_update_def create_virtual_memory_mapping_def
  destroy_virtual_memory_mapping_def destroy_loop_step destroy_loop_exit create_loop_step
  create_loop_exit query_loop_step query_loop_exit phys_to_virt_def EXTRACT_9BITS_def idx_def
  load_def store_def Let_def empty_table_def

section \<open>Table frames and their cells\<close>

lemma aligned_dvd: "aligned b \<Longrightarrow> 4096 dvd unat b"
proof -
  assume "aligned b"
  hence "unat (take_bit 12 b) = 0" by (simp add: aligned_def)
  hence "take_bit 12 (unat b) = 0" by (simp add: unsigned_take_bit_eq)
  thus ?thesis by (simp add: take_bit_eq_0_iff)
qed

lemma unat_cell:
  assumes "aligned b" "j \<le> 0x1ff"
  shows "unat (b + 8 * j) = unat b + 8 * unat j"
proof -
  have j: "unat j \<le> 511" using assms(2) by (simp add: word_le_nat_alt)
  have b: "unat b < 2 ^ 64" using unsigned_less[of b] by simp
  from aligned_dvd[OF assms(1)] obtain m where m: "unat b = 4096 * m" by (auto simp: dvd_def)
  with b have "m < 2 ^ 52" by simp
  hence "unat b + 8 * unat j < 2 ^ 64" using m j by simp
  moreover have "unat (8 * j) = 8 * unat j" using j by (simp add: unat_word_ariths)
  ultimately show ?thesis by (simp add: unat_word_ariths)
qed

lemma cell_split:
  assumes "4096 * m + 8 * j = 4096 * m' + 8 * k" "j \<le> 511" "k \<le> 511"
  shows "m = m' \<and> j = (k::nat)"
proof -
  have "(4096 * m + 8 * j) div 4096 = (4096 * m' + 8 * k) div 4096" using assms(1) by simp
  hence "m = m'" using assms(2,3) by simp
  thus ?thesis using assms(1) by simp
qed

lemma cell_inj:
  assumes "aligned b" "aligned b'" "j \<le> 0x1ff" "k \<le> 0x1ff" "b + 8 * j = b' + 8 * k"
  shows "b = b' \<and> j = k"
proof -
  have i: "unat j \<le> 511" "unat k \<le> 511" using assms(3,4) by (simp_all add: word_le_nat_alt)
  from aligned_dvd[OF assms(1)] obtain m where m: "unat b = 4096 * m" by (auto simp: dvd_def)
  from aligned_dvd[OF assms(2)] obtain m' where m': "unat b' = 4096 * m'" by (auto simp: dvd_def)
  have "unat b + 8 * unat j = unat b' + 8 * unat k"
    using assms(5) unat_cell[OF assms(1,3)] unat_cell[OF assms(2,4)] by simp
  hence "4096 * m + 8 * unat j = 4096 * m' + 8 * unat k" by (simp only: m m')
  from cell_split[OF this i] m m' show ?thesis by (simp add: word_unat_eq_iff)
qed

lemma load_store_other:
  assumes "aligned n" "aligned c" "j \<le> 0x1ff" "p \<le> 0x1ff" "n \<noteq> c \<or> j \<noteq> p"
  shows "load n j (store c p v s) = load n j s"
proof (rule load_store_apart)
  show "word_aligned (n + 8 * j)" by (rule word_aligned_cell[OF page_word_aligned[OF assms(1)]])
  show "word_aligned (c + 8 * p)" by (rule word_aligned_cell[OF page_word_aligned[OF assms(2)]])
  show "n + 8 * j \<noteq> c + 8 * p" using cell_inj[OF assms(1,2,3,4)] assms(5) by blast
qed

lemma idx_le: "idx vpn i \<le> 0x1ff"
  unfolding idx_def EXTRACT_9BITS_def by (rule word_and_le1)

lemma aligned_push: "aligned (push_bit 12 n)"
  by (simp add: aligned_def take_bit_push_bit)

lemma free_aligned: "n \<in> free_frames s \<Longrightarrow> aligned n"
  by (auto simp add: free_frames_def aligned_push)

lemma free_frames_store [simp]: "free_frames (store c p v s) = free_frames s"
  by (simp add: free_frames_def)

lemma nodes_self: "b \<in> nodes s h b"
  by (cases h) simp_all

lemma nodes_Suc_iff:
  "n \<in> nodes s (Suc h) b \<longleftrightarrow>
     n = b \<or> (\<exists>j. j \<le> 0x1ff \<and> load b j s mod 2 \<noteq> 0 \<and> n \<in> nodes s h (load b j s - 1))"
  by auto

lemma ptr_nodes_Suc_iff:
  "n \<in> ptr_nodes s (Suc h) b \<longleftrightarrow>
     n = b \<or> (\<exists>j. j \<le> 0x1ff \<and> load b j s mod 2 \<noteq> 0 \<and> n \<in> ptr_nodes s h (load b j s - 1))"
  by auto

lemma ptr_nodes_sub: "n \<in> ptr_nodes s h b \<Longrightarrow> n \<in> nodes s h b"
proof (induction h arbitrary: b)
  case (Suc h)
  then show ?case unfolding nodes_Suc_iff ptr_nodes_Suc_iff by blast
qed simp

lemma wft_aligned: "wft s h b \<Longrightarrow> n \<in> nodes s h b \<Longrightarrow> aligned n"
proof (induction h arbitrary: b)
  case (Suc h)
  from Suc.prems(2) show ?case unfolding nodes_Suc_iff
  proof (elim disjE exE conjE)
    assume "n = b" with Suc.prems(1) show ?thesis by simp
  next
    fix j assume "j \<le> 0x1ff" "load b j s mod 2 \<noteq> 0" "n \<in> nodes s h (load b j s - 1)"
    with Suc.prems(1) Suc.IH[of "load b j s - 1"] show ?thesis by simp
  qed
qed simp

section \<open>What a walk depends on\<close>

lemma ptr_cong:
  assumes "\<And>n j. n \<in> ptr_nodes s h b \<Longrightarrow> j \<le> 0x1ff \<Longrightarrow> load n j s' = load n j s"
  shows "nodes s' h b = nodes s h b \<and> ptr_nodes s' h b = ptr_nodes s h b \<and> wft s' h b = wft s h b"
  using assms
proof (induction h arbitrary: b)
  case 0
  show ?case by simp
next
  case (Suc h)
  have L: "\<And>j. j \<le> 0x1ff \<Longrightarrow> load b j s' = load b j s"
    using Suc.prems[of b] by simp
  have C: "nodes s' h (load b j s - 1) = nodes s h (load b j s - 1) \<and>
           ptr_nodes s' h (load b j s - 1) = ptr_nodes s h (load b j s - 1) \<and>
           wft s' h (load b j s - 1) = wft s h (load b j s - 1)"
    if "j \<le> 0x1ff" "load b j s mod 2 \<noteq> 0" for j
  proof (rule Suc.IH)
    fix n k assume "n \<in> ptr_nodes s h (load b j s - 1)" "k \<le> (0x1ff::u64)"
    with that show "load n k s' = load n k s"
      by (intro Suc.prems) (auto simp add: ptr_nodes_Suc_iff)
  qed
  have C1: "\<And>j. j \<le> 0x1ff \<Longrightarrow> load b j s mod 2 \<noteq> 0 \<Longrightarrow>
              nodes s' h (load b j s - 1) = nodes s h (load b j s - 1)"
    and C2: "\<And>j. j \<le> 0x1ff \<Longrightarrow> load b j s mod 2 \<noteq> 0 \<Longrightarrow>
              ptr_nodes s' h (load b j s - 1) = ptr_nodes s h (load b j s - 1)"
    and C3: "\<And>j. j \<le> 0x1ff \<Longrightarrow> load b j s mod 2 \<noteq> 0 \<Longrightarrow>
              wft s' h (load b j s - 1) = wft s h (load b j s - 1)"
    using C by simp_all
  have 1: "nodes s' (Suc h) b = nodes s (Suc h) b"
    by (rule set_eqI) (simp add: L C1 cong: conj_cong)
  have 2: "ptr_nodes s' (Suc h) b = ptr_nodes s (Suc h) b"
    by (rule set_eqI) (simp add: L C2 cong: conj_cong)
  have 3: "wft s' (Suc h) b = wft s (Suc h) b"
    by (simp add: L C1 C3 cong: conj_cong imp_cong)
  show ?case by (simp only: 1 2 3)
qed

lemma nodes_cong:
  assumes "\<And>n j. n \<in> nodes s h b \<Longrightarrow> j \<le> 0x1ff \<Longrightarrow> load n j s' = load n j s"
  shows "nodes s' h b = nodes s h b" "wft s' h b = wft s h b"
proof -
  have "\<And>n j. n \<in> ptr_nodes s h b \<Longrightarrow> j \<le> 0x1ff \<Longrightarrow> load n j s' = load n j s"
    by (rule assms) (simp_all add: ptr_nodes_sub)
  from ptr_cong[of s h b s', OF this]
  show "nodes s' h b = nodes s h b" "wft s' h b = wft s h b" by simp_all
qed

lemma query_cong:
  assumes "\<And>n j. n \<in> nodes s h b \<Longrightarrow> j \<le> 0x1ff \<Longrightarrow> load n j s' = load n j s"
    and "i + h = 5" "p \<le> 0x1ff"
  shows "query_from nm vpn i b p s' = query_from nm vpn i b p s"
  using assms
proof (induction h arbitrary: b i p)
  case 0
  have "load b p s' = load b p s" using "0.prems"(1)[of b p] "0.prems"(3) by simp
  with "0.prems"(2) show ?case by (simp add: query_from_leaf)
next
  case (Suc h)
  have i: "i < 5" "(i + 1) + h = 5" using Suc.prems(2) by simp_all
  have l: "load b p s' = load b p s" using Suc.prems(1)[of b p] Suc.prems(3) by simp
  show ?case
  proof (cases "load b p s mod 2 = 0")
    case True
    with i l show ?thesis by (simp add: query_from_step)
  next
    case False
    have "query_from nm vpn (i + 1) (load b p s - 1) (idx vpn i) s'
            = query_from nm vpn (i + 1) (load b p s - 1) (idx vpn i) s"
    proof (rule Suc.IH[OF _ i(2) idx_le])
      fix n j assume "n \<in> nodes s h (load b p s - 1)" "j \<le> (0x1ff::u64)"
      with False Suc.prems(3) show "load n j s' = load n j s"
        by (intro Suc.prems(1)) (auto simp add: nodes_Suc_iff)
    qed
    with False i l show ?thesis by (simp add: query_from_step)
  qed
qed

lemma zero_node:
  assumes "aligned c" "\<And>j. j \<le> 0x1ff \<Longrightarrow> load c j s = 0"
  shows "wft s h c" "nodes s h c = {c}"
proof -
  show "wft s h c" using assms by (cases h) (simp_all cong: conj_cong)
  show "nodes s h c = {c}" using assms by (cases h) (simp_all cong: conj_cong)
qed

lemma zero_node_query:
  assumes "\<And>j. j \<le> 0x1ff \<Longrightarrow> load c j s = 0" "p \<le> 0x1ff"
  shows "query_from nm vpn i c p s = nm"
  using assms by (cases "i < 5") (simp_all add: query_from_step query_from_leaf)

section \<open>The create walk on a well-formed table\<close>

lemma word_lt_52: "(f::u64) < 2 ^ 52 \<longleftrightarrow> unat f < 2 ^ 52"
proof -
  have "(f < 2 ^ 52) = (unat f < unat (2 ^ 52 :: u64))" by (rule word_less_nat_alt)
  also have "unat (2 ^ 52 :: u64) = 2 ^ 52" by simp
  finally show ?thesis .
qed

lemma free_frames_alloc:
  assumes "unat (nalloc s) < 2 ^ 52" "n \<in> free_frames (s\<lparr>nalloc := nalloc s + 1\<rparr>)"
  shows "n \<in> free_frames s" "n \<noteq> push_bit 12 (nalloc s)"
proof -
  from assms(2) obtain f where f: "n = push_bit 12 f" "nalloc s + 1 \<le> f" "f < 2 ^ 52"
    by (auto simp add: free_frames_def)
  have u: "unat (nalloc s + 1) = unat (nalloc s) + 1"
    using assms(1) by (simp add: unat_word_ariths)
  from f(2) u have lt: "unat (nalloc s) < unat f" by (simp add: word_le_nat_alt)
  hence "nalloc s \<le> f" by (simp add: word_le_nat_alt)
  with f(1,3) show "n \<in> free_frames s" unfolding free_frames_def by blast
  have nl: "nalloc s < 2 ^ 52" using assms(1) by (simp only: word_lt_52)
  show "n \<noteq> push_bit 12 (nalloc s)"
  proof
    assume "n = push_bit 12 (nalloc s)"
    hence "push_bit 12 (nalloc s) = push_bit 12 f" using f(1) by simp
    from push_bit_inj[OF nl f(3) this] lt show False by simp
  qed
qed

lemma free_frames_next:
  assumes "unat (nalloc s) < 2 ^ 52"
  shows "push_bit 12 (nalloc s) \<in> free_frames s"
proof -
  have "nalloc s < 2 ^ 52" using assms by (simp only: word_lt_52)
  thus ?thesis unfolding free_frames_def by blast
qed

lemma create_leaf:
  assumes "p \<le> 0x1ff" "wft s 0 b" "fresh_frames s 0 b"
  shows "create_post nm vpn ppn 5 0 b p s (create_from vpn ppn 5 b p s)"
proof -
  define s' where "s' = store b p (push_bit 12 ppn + 1) s"
  have eq: "create_from vpn ppn 5 b p s = s'" by (simp add: create_from_leaf s'_def)
  have ab: "aligned b" using assms(2) by simp
  have bfree: "b \<notin> free_frames s" using assms(3) by (auto simp add: fresh_frames_def)
  have fr: "\<And>n j. aligned n \<Longrightarrow> j \<le> 0x1ff \<Longrightarrow> n \<noteq> b \<or> j \<noteq> p \<Longrightarrow> load n j s' = load n j s"
    unfolding s'_def using ab assms(1) by (simp add: load_store_other)
  have 1: "wft s' 0 b" using ab by simp
  have 2: "fresh_frames s' 0 b"
    unfolding fresh_frames_def
  proof (intro conjI allI impI)
    show "nodes s' 0 b \<inter> free_frames s' = {}" using bfree by (simp add: s'_def)
  next
    fix n and j :: u64 assume a: "n \<in> free_frames s' \<and> j \<le> 0x1ff"
    hence n: "n \<in> free_frames s" by (simp add: s'_def)
    with bfree have "n \<noteq> b" by auto
    with fr[of n j] n a free_aligned[OF n] assms(3) show "load n j s' = 0"
      by (simp add: fresh_frames_def)
  qed
  have 6: "query_from nm vpn 5 b p s' = take_bit 52 ppn"
    by (simp add: query_from_leaf s'_def load_store_same ptr_mod2 drop_ptr)
  have 7: "query_from nm vpn2 5 b p2 s' = query_from nm vpn2 5 b p2 s"
    if "p2 \<le> 0x1ff" "p2 \<noteq> p" for vpn2 p2
    using fr[of b p2] ab that by (simp add: query_from_leaf)
  have 8: "fst (destroy_loop vpn 5 b p s') = 5" by (simp add: destroy_loop_exit)
  show ?thesis unfolding create_post_def eq
    using 1 2 6 7 8 fr by (auto simp add: s'_def)
qed

lemma nodes_child:
  "j \<le> 0x1ff \<Longrightarrow> load b j s mod 2 \<noteq> 0 \<Longrightarrow> n \<in> nodes s h (load b j s - 1) \<Longrightarrow> n \<in> nodes s (Suc h) b"
  unfolding nodes_Suc_iff by blast

lemma wft_child:
  assumes "wft s (Suc h) b" "j \<le> 0x1ff" "load b j s mod 2 \<noteq> 0"
  shows "wft s h (load b j s - 1)" "b \<notin> nodes s h (load b j s - 1)"
  using assms by simp_all

lemma wft_siblings:
  assumes "wft s (Suc h) b" "j \<le> 0x1ff" "k \<le> 0x1ff" "j \<noteq> k"
    "load b j s mod 2 \<noteq> 0" "load b k s mod 2 \<noteq> 0"
  shows "nodes s h (load b j s - 1) \<inter> nodes s h (load b k s - 1) = {}"
  using assms by simp

lemma fresh_child:
  assumes "fresh_frames s (Suc h) b" "j \<le> 0x1ff" "load b j s mod 2 \<noteq> 0"
  shows "fresh_frames s h (load b j s - 1)"
proof -
  have "nodes s h (load b j s - 1) \<subseteq> nodes s (Suc h) b"
    using assms(2,3) by (auto intro: nodes_child)
  with assms(1) show ?thesis unfolding fresh_frames_def by blast
qed

lemma create_first_step:
  assumes i: "i + Suc h = 5" and p: "p \<le> 0x1ff"
    and w: "wft s (Suc h) b" and f: "fresh_frames s (Suc h) b"
    and r: "unat (nalloc s) + Suc h \<le> 2 ^ 52 \<or> fst (destroy_loop vpn i b p s) = 5"
  obtains s1 c where
    "create_from vpn ppn i b p s = create_from vpn ppn (i + 1) c (idx vpn i) s1"
    "load b p s1 mod 2 \<noteq> 0" "load b p s1 - 1 = c"
    "\<And>n j. aligned n \<Longrightarrow> j \<le> 0x1ff \<Longrightarrow> n \<noteq> b \<or> j \<noteq> p \<Longrightarrow> load n j s1 = load n j s"
    "free_frames s1 \<subseteq> free_frames s"
    "wft s1 h c" "fresh_frames s1 h c"
    "b \<notin> nodes s1 h c" "nodes s1 h c \<subseteq> nodes s (Suc h) b \<union> free_frames s"
    "\<And>j. j \<le> 0x1ff \<Longrightarrow> j \<noteq> p \<Longrightarrow> load b j s mod 2 \<noteq> 0 \<Longrightarrow>
          nodes s1 h c \<inter> nodes s h (load b j s - 1) = {}"
    "unat (nalloc s1) + h \<le> 2 ^ 52 \<or> fst (destroy_loop vpn (i + 1) c (idx vpn i) s1) = 5"
    "\<And>vpn2. query_from nm vpn2 i b p s = query_from nm vpn2 (i + 1) c (idx vpn2 i) s1"
proof (cases "load b p s mod 2 = 0")
  case False
  have i5: "i < 5" using i by simp
  show ?thesis
  proof (rule that[of "load b p s - 1" s])
    show "create_from vpn ppn i b p s = create_from vpn ppn (i + 1) (load b p s - 1) (idx vpn i) s"
      using False i5 by (simp add: create_from_step)
    show "load b p s mod 2 \<noteq> 0" by (rule False)
    show "load b p s - 1 = load b p s - 1" ..
    show "free_frames s \<subseteq> free_frames s" ..
    show "wft s h (load b p s - 1)" by (rule wft_child[OF w p False])
    show "fresh_frames s h (load b p s - 1)" by (rule fresh_child[OF f p False])
    show "b \<notin> nodes s h (load b p s - 1)" by (rule wft_child[OF w p False])
    show "nodes s h (load b p s - 1) \<subseteq> nodes s (Suc h) b \<union> free_frames s"
      using p False by (auto intro: nodes_child)
    show "nodes s h (load b p s - 1) \<inter> nodes s h (load b j s - 1) = {}"
      if "j \<le> 0x1ff" "j \<noteq> p" "load b j s mod 2 \<noteq> 0" for j
      using wft_siblings[OF w p that(1) _ False that(3)] that(2) by simp
    show "unat (nalloc s) + h \<le> 2 ^ 52 \<or>
          fst (destroy_loop vpn (i + 1) (load b p s - 1) (idx vpn i) s) = 5"
      using r False i5 by (auto simp add: destroy_loop_step)
    show "query_from nm vpn2 i b p s
            = query_from nm vpn2 (i + 1) (load b p s - 1) (idx vpn2 i) s" for vpn2
      using False i5 by (simp add: query_from_step)
  qed simp
next
  case True
  have i5: "i < 5" using i by simp
  define c where "c = push_bit 12 (nalloc s)"
  define s1 where "s1 = store b p (c + 1) (s\<lparr>nalloc := nalloc s + 1\<rparr>)"
  have "fst (destroy_loop vpn i b p s) = i" using True i5 by (simp add: destroy_loop_step)
  with r i5 have room: "unat (nalloc s) + Suc h \<le> 2 ^ 52" by auto
  hence lt: "unat (nalloc s) < 2 ^ 52" by simp
  have cf: "c \<in> free_frames s" unfolding c_def by (rule free_frames_next[OF lt])
  have ac: "aligned c" by (rule free_aligned[OF cf])
  have ab: "aligned b" using w by simp
  have bs: "b \<in> nodes s (Suc h) b" by (rule nodes_self)
  have dis: "nodes s (Suc h) b \<inter> free_frames s = {}" using f by (simp add: fresh_frames_def)
  have bf: "b \<notin> free_frames s" using bs dis by blast
  have cb: "c \<noteq> b" using cf bf by blast
  have A2: "load n j s1 = load n j s" if "aligned n" "j \<le> 0x1ff" "n \<noteq> b \<or> j \<noteq> p" for n j
    unfolding s1_def using load_store_other[OF that(1) ab that(2) p that(3)] by simp
  have fs1: "free_frames s1 = free_frames (s\<lparr>nalloc := nalloc s + 1\<rparr>)"
    by (simp add: s1_def)
  have A3: "free_frames s1 \<subseteq> free_frames s"
    unfolding fs1 using free_frames_alloc(1)[OF lt] by blast
  have cn: "c \<notin> free_frames s1"
    unfolding fs1 using free_frames_alloc(2)[OF lt, of c] by (auto simp add: c_def)
  have z: "load n j s1 = 0" if "n \<in> free_frames s" "j \<le> 0x1ff" for n j
  proof -
    have "n \<noteq> b" using that(1) bf by blast
    hence "load n j s1 = load n j s" using A2[OF free_aligned[OF that(1)] that(2)] by simp
    thus ?thesis using f that by (simp add: fresh_frames_def)
  qed
  have zc: "\<And>j. j \<le> 0x1ff \<Longrightarrow> load c j s1 = 0" by (rule z[OF cf])
  have nc: "nodes s1 h c = {c}" by (rule zero_node(2)[OF ac zc])
  show ?thesis
  proof (rule that[of c s1])
    show "create_from vpn ppn i b p s = create_from vpn ppn (i + 1) c (idx vpn i) s1"
      using True i5 by (simp add: create_from_step s1_def c_def)
    show "load b p s1 mod 2 \<noteq> 0" by (simp add: s1_def load_store_same c_def ptr_mod2)
    show "load b p s1 - 1 = c" by (simp add: s1_def load_store_same)
    show "load n j s1 = load n j s" if "aligned n" "j \<le> 0x1ff" "n \<noteq> b \<or> j \<noteq> p" for n j
      by (rule A2[OF that])
    show "free_frames s1 \<subseteq> free_frames s" by (rule A3)
    show "wft s1 h c" by (rule zero_node(1)[OF ac zc])
    show "fresh_frames s1 h c"
      unfolding fresh_frames_def nc using cn z A3 by blast
    show "b \<notin> nodes s1 h c" unfolding nc using cb by simp
    show "nodes s1 h c \<subseteq> nodes s (Suc h) b \<union> free_frames s" unfolding nc using cf by simp
    show "nodes s1 h c \<inter> nodes s h (load b j s - 1) = {}"
      if "j \<le> 0x1ff" "j \<noteq> p" "load b j s mod 2 \<noteq> 0" for j
    proof -
      have "nodes s h (load b j s - 1) \<subseteq> nodes s (Suc h) b"
        using that by (auto intro: nodes_child)
      with dis cf show ?thesis unfolding nc by blast
    qed
    have "unat (nalloc s + 1) = unat (nalloc s) + 1" using lt by (simp add: unat_word_ariths)
    thus "unat (nalloc s1) + h \<le> 2 ^ 52 \<or> fst (destroy_loop vpn (i + 1) c (idx vpn i) s1) = 5"
      using room by (simp add: s1_def)
    show "query_from nm vpn2 i b p s = query_from nm vpn2 (i + 1) c (idx vpn2 i) s1" for vpn2
      using True i5 zero_node_query[of c s1 "idx vpn2 i" nm vpn2 "i + 1", OF zc idx_le]
      by (simp add: query_from_step)
  qed
qed

lemma create_postI:
  assumes "wft s' h b" "fresh_frames s' h b" "nodes s' h b \<subseteq> nodes s h b \<union> free_frames s"
    "free_frames s' \<subseteq> free_frames s"
    "\<And>n j. aligned n \<Longrightarrow> j \<le> 0x1ff \<Longrightarrow> n \<notin> nodes s h b \<Longrightarrow> n \<notin> free_frames s \<Longrightarrow>
               load n j s' = load n j s"
    "query_from nm vpn i b p s' = take_bit 52 ppn"
    "\<And>vpn2 p2. p2 \<le> 0x1ff \<Longrightarrow>
               p2 \<noteq> p \<or> (\<exists>k. i \<le> k \<and> k < 5 \<and> idx vpn2 k \<noteq> idx vpn k) \<Longrightarrow>
               query_from nm vpn2 i b p2 s' = query_from nm vpn2 i b p2 s"
    "fst (destroy_loop vpn i b p s') = 5"
  shows "create_post nm vpn ppn i h b p s s'"
  unfolding create_post_def using assms by simp

lemma create_postD:
  assumes "create_post nm vpn ppn i h b p s s'"
  shows "wft s' h b" "fresh_frames s' h b" "nodes s' h b \<subseteq> nodes s h b \<union> free_frames s"
    "free_frames s' \<subseteq> free_frames s"
    "\<And>n j. aligned n \<Longrightarrow> j \<le> 0x1ff \<Longrightarrow> n \<notin> nodes s h b \<Longrightarrow> n \<notin> free_frames s \<Longrightarrow>
               load n j s' = load n j s"
    "query_from nm vpn i b p s' = take_bit 52 ppn"
    "\<And>vpn2 p2. p2 \<le> 0x1ff \<Longrightarrow>
               p2 \<noteq> p \<or> (\<exists>k. i \<le> k \<and> k < 5 \<and> idx vpn2 k \<noteq> idx vpn k) \<Longrightarrow>
               query_from nm vpn2 i b p2 s' = query_from nm vpn2 i b p2 s"
    "fst (destroy_loop vpn i b p s') = 5"
  using assms unfolding create_post_def by simp_all

lemma create_main:
  assumes "i + h = 5" "p \<le> 0x1ff" "wft s h b" "fresh_frames s h b"
    and "unat (nalloc s) + h \<le> 2 ^ 52 \<or> fst (destroy_loop vpn i b p s) = 5"
  shows "create_post nm vpn ppn i h b p s (create_from vpn ppn i b p s)"
  using assms
proof (induction h arbitrary: i b p s)
  case 0
  then show ?case using create_leaf[of p s b nm vpn ppn] by simp
next
  case (Suc h)
  note i = Suc.prems(1) and p = Suc.prems(2) and w = Suc.prems(3) and f = Suc.prems(4)
  have i5: "i < 5" and i1: "(i + 1) + h = 5" using i by simp_all
  have ab: "aligned b" using w by simp
  have dis: "nodes s (Suc h) b \<inter> free_frames s = {}" using f by (simp add: fresh_frames_def)
  have bf: "b \<notin> free_frames s" using nodes_self[of b s "Suc h"] dis by blast
  show ?case
  proof (rule create_first_step[OF i p w f Suc.prems(5), where ppn = ppn and nm = nm])
  fix s1 c assume
    step: "create_from vpn ppn i b p s = create_from vpn ppn (i + 1) c (idx vpn i) s1"
    and A1: "load b p s1 mod 2 \<noteq> 0" "load b p s1 - 1 = c"
    and A2: "\<And>n j. aligned n \<Longrightarrow> j \<le> 0x1ff \<Longrightarrow> n \<noteq> b \<or> j \<noteq> p \<Longrightarrow> load n j s1 = load n j s"
    and A3: "free_frames s1 \<subseteq> free_frames s"
    and A4: "wft s1 h c" "fresh_frames s1 h c"
    and A5: "b \<notin> nodes s1 h c" "nodes s1 h c \<subseteq> nodes s (Suc h) b \<union> free_frames s"
    and A5s: "\<And>j. j \<le> 0x1ff \<Longrightarrow> j \<noteq> p \<Longrightarrow> load b j s mod 2 \<noteq> 0 \<Longrightarrow>
          nodes s1 h c \<inter> nodes s h (load b j s - 1) = {}"
    and A6: "unat (nalloc s1) + h \<le> 2 ^ 52 \<or> fst (destroy_loop vpn (i + 1) c (idx vpn i) s1) = 5"
    and A7: "\<And>vpn2. query_from nm vpn2 i b p s = query_from nm vpn2 (i + 1) c (idx vpn2 i) s1"
  define s' where "s' = create_from vpn ppn (i + 1) c (idx vpn i) s1"
  have ih: "create_post nm vpn ppn (i + 1) h c (idx vpn i) s1 s'"
    unfolding s'_def by (rule Suc.IH[OF i1 idx_le A4 A6])
  have I1: "wft s' h c" and I2: "fresh_frames s' h c"
    and I3: "nodes s' h c \<subseteq> nodes s1 h c \<union> free_frames s1"
    and I4: "free_frames s' \<subseteq> free_frames s1"
    and I5: "\<And>n j. aligned n \<Longrightarrow> j \<le> 0x1ff \<Longrightarrow> n \<notin> nodes s1 h c \<Longrightarrow> n \<notin> free_frames s1 \<Longrightarrow>
               load n j s' = load n j s1"
    and I6: "query_from nm vpn (i + 1) c (idx vpn i) s' = take_bit 52 ppn"
    and I7: "\<And>vpn2 p2. p2 \<le> 0x1ff \<Longrightarrow>
               p2 \<noteq> idx vpn i \<or> (\<exists>k. i + 1 \<le> k \<and> k < 5 \<and> idx vpn2 k \<noteq> idx vpn k) \<Longrightarrow>
               query_from nm vpn2 (i + 1) c p2 s' = query_from nm vpn2 (i + 1) c p2 s1"
    and I8: "fst (destroy_loop vpn (i + 1) c (idx vpn i) s') = 5"
    by (rule create_postD[OF ih]; assumption)+
  have bf1: "b \<notin> free_frames s1" using bf A3 by blast
  have B1: "load b j s' = load b j s1" if "j \<le> 0x1ff" for j
    by (rule I5[OF ab that A5(1) bf1])
  have Bp: "load b p s' mod 2 \<noteq> 0" "load b p s' - 1 = c"
    using B1[OF p] A1 by simp_all
  have Bo: "load b j s' = load b j s" if "j \<le> 0x1ff" "j \<noteq> p" for j
    using B1[OF that(1)] A2[OF ab that(1)] that(2) by simp
  have sib: "load n k s' = load n k s"
    if j: "j \<le> 0x1ff" "j \<noteq> p" "load b j s mod 2 \<noteq> 0"
      and n: "n \<in> nodes s h (load b j s - 1)" and k: "k \<le> 0x1ff" for j n k
  proof -
    have an: "aligned n" by (rule wft_aligned[OF wft_child(1)[OF w j(1,3)] n])
    have nb: "n \<noteq> b" using wft_child(2)[OF w j(1,3)] n by blast
    have nn: "n \<in> nodes s (Suc h) b" by (rule nodes_child[OF j(1,3) n])
    have n1: "n \<notin> nodes s1 h c" using A5s[OF j] n by blast
    have n2: "n \<notin> free_frames s1" using nn dis A3 by blast
    show ?thesis using I5[OF an k n1 n2] A2[OF an k] nb by simp
  qed
  have sibn: "nodes s' h (load b j s - 1) = nodes s h (load b j s - 1)"
    and sibw: "wft s' h (load b j s - 1)"
    if j: "j \<le> 0x1ff" "j \<noteq> p" "load b j s mod 2 \<noteq> 0" for j
  proof -
    have e: "\<And>n k. n \<in> nodes s h (load b j s - 1) \<Longrightarrow> k \<le> 0x1ff \<Longrightarrow> load n k s' = load n k s"
      by (rule sib[OF j])
    show "nodes s' h (load b j s - 1) = nodes s h (load b j s - 1)" by (rule nodes_cong(1)[OF e])
    show "wft s' h (load b j s - 1)"
      using nodes_cong(2)[OF e] wft_child(1)[OF w j(1,3)] by simp
  qed
  have nc: "nodes s' h c \<subseteq> nodes s (Suc h) b \<union> free_frames s" using I3 A5(2) A3 by blast
  have nb': "b \<notin> nodes s' h c" using I3 A5(1) bf1 by blast
  have cs: "nodes s' h c \<inter> nodes s h (load b j s - 1) = {}"
    if j: "j \<le> 0x1ff" "j \<noteq> p" "load b j s mod 2 \<noteq> 0" for j
  proof -
    have "nodes s h (load b j s - 1) \<subseteq> nodes s (Suc h) b"
      using j by (auto intro: nodes_child)
    hence "nodes s h (load b j s - 1) \<inter> free_frames s1 = {}" using dis A3 by blast
    with A5s[OF j] I3 show ?thesis by blast
  qed
  have ch: "(load b j s' - 1 = c \<and> j = p) \<or>
            (j \<noteq> p \<and> load b j s' = load b j s \<and> load b j s mod 2 \<noteq> 0)"
    if "j \<le> 0x1ff" "load b j s' mod 2 \<noteq> 0" for j
    using that Bp Bo[OF that(1)] by (cases "j = p") auto
  have G1: "wft s' (Suc h) b"
    unfolding wft.simps
  proof (intro conjI allI impI)
    show "aligned b" by (rule ab)
  next
    fix j assume a: "j \<le> 0x1ff \<and> load b j s' mod 2 \<noteq> 0"
    from ch[of j] a show "wft s' h (load b j s' - 1)"
      using I1 sibw[of j] by auto
    from ch[of j] a show "b \<notin> nodes s' h (load b j s' - 1)"
      using nb' sibn[of j] wft_child(2)[OF w, of j] by auto
  next
    fix j k
    assume a: "j \<le> 0x1ff \<and> k \<le> 0x1ff \<and> j \<noteq> k \<and> load b j s' mod 2 \<noteq> 0 \<and> load b k s' mod 2 \<noteq> 0"
    from a have aj: "j \<le> 0x1ff" "load b j s' mod 2 \<noteq> 0"
      and ak: "k \<le> 0x1ff" "load b k s' mod 2 \<noteq> 0" and jk: "j \<noteq> k" by simp_all
    note cj = ch[OF aj] and ck = ch[OF ak]
    show "nodes s' h (load b j s' - 1) \<inter> nodes s' h (load b k s' - 1) = {}"
    proof (cases "j = p")
      case True
      with jk have kp: "k \<noteq> p" by simp
      from cj True have 1: "load b j s' - 1 = c" by simp
      from ck kp have 2: "load b k s' = load b k s" "load b k s mod 2 \<noteq> 0" by simp_all
      show ?thesis using cs[OF ak(1) kp 2(2)] sibn[OF ak(1) kp 2(2)] by (simp add: 1 2(1))
    next
      case jp: False
      from cj jp have 1: "load b j s' = load b j s" "load b j s mod 2 \<noteq> 0" by simp_all
      show ?thesis
      proof (cases "k = p")
        case True
        from ck True have 2: "load b k s' - 1 = c" by simp
        show ?thesis using cs[OF aj(1) jp 1(2)] sibn[OF aj(1) jp 1(2)]
          by (simp add: 1(1) 2 Int_commute)
      next
        case kp: False
        from ck kp have 2: "load b k s' = load b k s" "load b k s mod 2 \<noteq> 0" by simp_all
        show ?thesis
          using sibn[OF aj(1) jp 1(2)] sibn[OF ak(1) kp 2(2)]
            wft_siblings[OF w aj(1) ak(1) jk 1(2) 2(2)]
          by (simp add: 1(1) 2(1))
      qed
    qed
  qed
  have ns: "n \<in> nodes s (Suc h) b \<union> free_frames s \<and> n \<notin> free_frames s'"
    if "n \<in> nodes s' (Suc h) b" for n
    using that unfolding nodes_Suc_iff
  proof (elim disjE exE conjE)
    assume "n = b"
    with bf1 I4 show ?thesis using nodes_self[of b s "Suc h"] by blast
  next
    fix j assume a: "j \<le> 0x1ff" "load b j s' mod 2 \<noteq> 0" "n \<in> nodes s' h (load b j s' - 1)"
    from ch[OF a(1,2)] show ?thesis
    proof (elim disjE conjE)
      assume "load b j s' - 1 = c"
      with a(3) nc I2 show ?thesis unfolding fresh_frames_def by blast
    next
      assume b: "j \<noteq> p" "load b j s' = load b j s" "load b j s mod 2 \<noteq> 0"
      with a(3) sibn[OF a(1) b(1,3)] have "n \<in> nodes s h (load b j s - 1)" by simp
      hence "n \<in> nodes s (Suc h) b" by (rule nodes_child[OF a(1) b(3)])
      with dis A3 I4 show ?thesis by blast
    qed
  qed
  have G2: "fresh_frames s' (Suc h) b"
    unfolding fresh_frames_def using ns I2 unfolding fresh_frames_def by blast
  have G3: "nodes s' (Suc h) b \<subseteq> nodes s (Suc h) b \<union> free_frames s" using ns by blast
  have G4: "free_frames s' \<subseteq> free_frames s" using I4 A3 by blast
  have G5: "load n j s' = load n j s"
    if "aligned n" "j \<le> 0x1ff" "n \<notin> nodes s (Suc h) b" "n \<notin> free_frames s" for n j
  proof -
    have nb: "n \<noteq> b" using that(3) nodes_self[of b s "Suc h"] by blast
    have n1: "n \<notin> nodes s1 h c" using A5(2) that(3,4) by blast
    have n2: "n \<notin> free_frames s1" using A3 that(4) by blast
    show ?thesis using I5[OF that(1,2) n1 n2] A2[OF that(1,2)] nb by simp
  qed
  have G6: "query_from nm vpn i b p s' = take_bit 52 ppn"
    using i5 Bp I6 by (simp add: query_from_step)
  have G7: "query_from nm vpn2 i b p2 s' = query_from nm vpn2 i b p2 s"
    if p2: "p2 \<le> 0x1ff" and d: "p2 \<noteq> p \<or> (\<exists>k. i \<le> k \<and> k < 5 \<and> idx vpn2 k \<noteq> idx vpn k)"
    for vpn2 p2
  proof (cases "p2 = p")
    case True
    with d obtain k where k: "i \<le> k" "k < 5" "idx vpn2 k \<noteq> idx vpn k" by blast
    have "idx vpn2 i \<noteq> idx vpn i \<or> (\<exists>k. i + 1 \<le> k \<and> k < 5 \<and> idx vpn2 k \<noteq> idx vpn k)"
    proof (cases "k = i")
      case True with k(3) show ?thesis by simp
    next
      case False with k have "i + 1 \<le> k" by simp
      with k show ?thesis by blast
    qed
    from I7[OF idx_le this]
    have "query_from nm vpn2 (i + 1) c (idx vpn2 i) s' = query_from nm vpn2 i b p s"
      by (simp add: A7)
    with True i5 Bp show ?thesis by (simp add: query_from_step)
  next
    case False
    note l = Bo[OF p2 False]
    show ?thesis
    proof (cases "load b p2 s mod 2 = 0")
      case True
      with l i5 show ?thesis by (simp add: query_from_step)
    next
      case v: False
      have "query_from nm vpn2 (i + 1) (load b p2 s - 1) (idx vpn2 i) s'
              = query_from nm vpn2 (i + 1) (load b p2 s - 1) (idx vpn2 i) s"
        by (rule query_cong[OF sib[OF p2 False v] i1 idx_le])
      with l i5 v show ?thesis by (simp add: query_from_step)
    qed
  qed
  have G8: "fst (destroy_loop vpn i b p s') = 5"
    using i5 Bp I8 by (simp add: destroy_loop_step)
  show ?thesis
    unfolding step s'_def[symmetric]
    by (rule create_postI[OF G1 G2 G3 G4 G5 G6 G7 G8])
  qed
qed

section \<open>The entry points on a well-formed table\<close>

lemma idx_bit: "bit (idx v k) m \<longleftrightarrow> m < 9 \<and> bit v (36 - k * 9 + m)"
proof -
  have m: "EXTRACT_9BITS = mask 9" by (simp add: EXTRACT_9BITS_def mask_eq_exp_minus_1)
  show ?thesis by (auto simp add: idx_def m bit_and_iff bit_mask_iff bit_drop_bit_eq)
qed

lemma idx_all_eq:
  assumes "\<And>k. k < 5 \<Longrightarrow> idx v2 k = idx v1 k"
  shows "take_bit 45 v2 = take_bit 45 v1"
proof (rule bit_word_eqI)
  fix n assume "n < LENGTH(64)"
  show "bit (take_bit 45 v2) n = bit (take_bit 45 v1) n"
  proof (cases "n < 45")
    case False
    then show ?thesis by (simp add: bit_take_bit_iff)
  next
    case True
    define k where "k = 4 - n div 9"
    have k: "k < 5" by (simp add: k_def)
    have "n div 9 \<le> 4" using True by simp
    hence "36 - k * 9 = 9 * (n div 9)" unfolding k_def by simp
    hence e: "36 - k * 9 + n mod 9 = n" by simp
    have "bit (idx v2 k) (n mod 9) = bit (idx v1 k) (n mod 9)" using assms[OF k] by simp
    hence "bit v2 n = bit v1 n" by (simp add: idx_bit e)
    with True show ?thesis by (simp add: bit_take_bit_iff)
  qed
qed

lemma idx_differs:
  assumes "take_bit 45 v2 \<noteq> take_bit 45 v1"
  shows "idx v2 0 \<noteq> idx v1 0 \<or> (\<exists>k. 1 \<le> k \<and> k < 5 \<and> idx v2 k \<noteq> idx v1 k)"
proof (rule ccontr)
  assume n: "\<not> ?thesis"
  have "idx v2 k = idx v1 k" if "k < 5" for k
    using n that by (cases "k = 0") auto
  from idx_all_eq[OF this] assms show False by simp
qed

lemma wf_tableD:
  assumes "wf_table s pt"
  shows "wft s 4 (push_bit 12 pt)" "fresh_frames s 4 (push_bit 12 pt)"
  using assms by (simp_all add: wf_table_def)

lemma update_post:
  assumes "wf_table s pt" "ppn \<noteq> nm"
    and "unat (nalloc s) + 4 \<le> 2 ^ 52
         \<or> fst (destroy_loop vpn 1 (push_bit 12 pt) (idx vpn 0) s) = 5"
  shows "create_post nm vpn ppn 1 4 (push_bit 12 pt) (idx vpn 0) s
           (page_table_update nm pt vpn ppn s)"
  unfolding update_create[OF assms(2)]
  by (rule create_main[OF _ idx_le wf_tableD[OF assms(1)] assms(3)]) simp

lemma update_wf:
  assumes "wf_table s pt" "ppn \<noteq> nm"
    and "unat (nalloc s) + 4 \<le> 2 ^ 52
         \<or> fst (destroy_loop vpn 1 (push_bit 12 pt) (idx vpn 0) s) = 5"
  shows "wf_table (page_table_update nm pt vpn ppn s) pt"
  using create_postD(1,2)[OF update_post[OF assms]] by (simp add: wf_table_def)

lemma take_bit_52:
  assumes "(n::u64) < 2 ^ 52" shows "take_bit 52 n = n"
  using less_mask_eq[OF assms] by (simp only: take_bit_eq_mask)

section \<open>The destroy walk on a well-formed table\<close>

lemma destroy_leaf:
  assumes "wft s h b" "i + h = 5" "p \<le> 0x1ff" "destroy_loop vpn i b p s = (5, c', p')"
  shows "c' \<in> nodes s h b \<and> c' \<notin> ptr_nodes s h b \<and> p' \<le> 0x1ff"
  using assms
proof (induction h arbitrary: i b p)
  case 0
  then show ?case by (simp add: destroy_loop_exit)
next
  case (Suc h)
  note w = Suc.prems(1) and p = Suc.prems(3)
  have i5: "i < 5" and i1: "(i + 1) + h = 5" using Suc.prems(2) by simp_all
  have v: "load b p s mod 2 \<noteq> 0"
    using Suc.prems(4) i5 by (auto simp add: destroy_loop_step split: if_splits)
  hence l: "destroy_loop vpn (i + 1) (load b p s - 1) (idx vpn i) s = (5, c', p')"
    using Suc.prems(4) i5 by (simp add: destroy_loop_step)
  from Suc.IH[OF wft_child(1)[OF w p v] i1 idx_le l]
  have c: "c' \<in> nodes s h (load b p s - 1)" and n: "c' \<notin> ptr_nodes s h (load b p s - 1)"
    and p': "p' \<le> 0x1ff" by simp_all
  have 1: "c' \<in> nodes s (Suc h) b" by (rule nodes_child[OF p v c])
  have 2: "c' \<notin> ptr_nodes s (Suc h) b"
    unfolding ptr_nodes_Suc_iff
  proof (intro notI, elim disjE exE conjE)
    assume "c' = b"
    with c wft_child(2)[OF w p v] show False by simp
  next
    fix j assume j: "j \<le> 0x1ff" "load b j s mod 2 \<noteq> 0" "c' \<in> ptr_nodes s h (load b j s - 1)"
    show False
    proof (cases "j = p")
      case True
      with j(3) n show False by simp
    next
      case False
      from wft_siblings[OF w j(1) p False j(2) v] ptr_nodes_sub[OF j(3)] c
      show False by blast
    qed
  qed
  from 1 2 p' show ?case by simp
qed

lemma mem_store_changed:
  assumes "mem (store c p v s) a \<noteq> mem s a"
  shows "a - (c + 8 * p) < 8"
proof (rule ccontr)
  assume n: "\<not> a - (c + 8 * p) < 8"
  define b where "b = c + 8 * p"
  have "a - b \<noteq> 0" "a - b \<noteq> 1" "a - b \<noteq> 2" "a - b \<noteq> 3" "a - b \<noteq> 4" "a - b \<noteq> 5"
    "a - b \<noteq> 6" "a - b \<noteq> 7" using n unfolding b_def by auto
  hence "a \<noteq> b" "a \<noteq> b + 1" "a \<noteq> b + 2" "a \<noteq> b + 3" "a \<noteq> b + 4" "a \<noteq> b + 5"
    "a \<noteq> b + 6" "a \<noteq> b + 7" by auto
  hence "mem (store c p v s) a = mem s a" by (simp add: store_def Let_def b_def)
  with assms show False by simp
qed

lemma destroy_ptr_frame:
  assumes "wft s h b" "i + h = 5" "p \<le> 0x1ff" "destroy_loop vpn i b p s = (i', c', p')"
    and "i' < 5 \<longrightarrow> load c' p' s = 0" "n \<in> ptr_nodes s h b" "j \<le> 0x1ff"
  shows "load n j (store c' p' 0 s) = load n j s"
proof (cases "i' < 5")
  case True
  with assms(5) have "store c' p' 0 s = s" by (simp add: store_zero_same)
  thus ?thesis by simp
next
  case False
  have "i \<le> 5" using assms(2) by simp
  from destroy_loop_i[OF this, of vpn b p s] assms(4) False have i': "i' = 5" by simp
  from destroy_leaf[OF assms(1,2,3) assms(4)[unfolded i']]
  have c': "c' \<in> nodes s h b" "c' \<notin> ptr_nodes s h b" "p' \<le> 0x1ff" by simp_all
  have an: "aligned n" by (rule wft_aligned[OF assms(1) ptr_nodes_sub[OF assms(6)]])
  have ac: "aligned c'" by (rule wft_aligned[OF assms(1) c'(1)])
  have "n \<noteq> c'" using assms(6) c'(2) by blast
  thus ?thesis by (simp add: load_store_other[OF an ac assms(7) c'(3)])
qed

lemma wft_root_aligned: "wft s h b \<Longrightarrow> aligned b"
  by (cases h) simp_all

lemma wft_entry_at:
  "wft s 4 root \<Longrightarrow> entry_at vpn root s k = Some (c, p) \<Longrightarrow> k \<le> 4 \<Longrightarrow>
   wft s (4 - k) c \<and> p \<le> 0x1ff"
proof (induction k arbitrary: c p)
  case 0
  then show ?case by (auto simp add: idx_le)
next
  case (Suc k)
  from Suc.prems(2) obtain c0 p0 where e: "entry_at vpn root s k = Some (c0, p0)"
    and v: "load c0 p0 s mod 2 \<noteq> 0" and c: "c = load c0 p0 s - 1" and p: "p = idx vpn (Suc k)"
    by (auto split: option.splits if_splits)
  from Suc.IH[OF Suc.prems(1) e] Suc.prems(3) have w: "wft s (4 - k) c0" "p0 \<le> 0x1ff" by simp_all
  have "4 - k = Suc (4 - Suc k)" using Suc.prems(3) by simp
  with w(1) have "wft s (Suc (4 - Suc k)) c0" by simp
  from wft_child(1)[OF this w(2) v] c p show ?case by (simp add: idx_le)
qed

lemma wft_ptrs_aligned: "wft s 4 root \<Longrightarrow> ptrs_aligned vpn root s"
  unfolding ptrs_aligned_iff
proof (intro allI impI)
  fix k c p assume w: "wft s 4 root" and a: "k < 5 \<and> entry_at vpn root s k = Some (c, p)"
  hence "wft s (4 - k) c" using wft_entry_at[of s root vpn k c p] by simp
  thus "word_aligned c" by (rule page_word_aligned[OF wft_root_aligned])
qed

lemma entries_ok_ptrs_aligned:
  assumes "entries_ok s" shows "ptrs_aligned vpn (push_bit 12 pt) s"
proof -
  have "entry_at vpn (push_bit 12 pt) s k = Some (c, p) \<Longrightarrow> word_aligned c" for k c p
  proof (induction k arbitrary: c p)
    case 0
    then show ?case by (auto simp add: word_aligned_push)
  next
    case (Suc k)
    from Suc.prems obtain c0 p0 where e: "entry_at vpn (push_bit 12 pt) s k = Some (c0, p0)"
      and v: "load c0 p0 s mod 2 \<noteq> 0" and c: "c = load c0 p0 s - 1"
      by (auto split: option.splits if_splits)
    from entry_ok_next[OF entries_ok_load[OF assms Suc.IH[OF e]] v] c show ?case by simp
  qed
  thus ?thesis unfolding ptrs_aligned_iff by blast
qed

lemma wf_empty_table: "wf_table empty_table 0"
proof -
  have z: "\<And>n j. load n j empty_table = 0" by simp
  have a: "aligned 0" by (simp add: aligned_def)
  have n: "nodes empty_table 4 0 = {0}" by (rule zero_node(2)[OF a z])
  have "0 \<notin> free_frames empty_table"
  proof
    assume "0 \<in> free_frames empty_table"
    then obtain f :: u64 where f: "push_bit 12 f = push_bit 12 0" "1 \<le> f" "f < 2 ^ 52"
      by (auto simp add: free_frames_def empty_table_def)
    have "(0::u64) < 2 ^ 52" by simp
    from push_bit_inj[OF f(3) this f(1)] f(2) show False by simp
  qed
  with n z zero_node(1)[OF a z, of 4] show ?thesis
    by (simp add: wf_table_def fresh_frames_def)
qed

lemma wf_mapped_table: "wf_table mapped_table 0"
  unfolding mapped_table_def
  by (rule update_wf[OF wf_empty_table]) (simp_all add: empty_table_def)

lemma nalloc_mapped_table: "nalloc mapped_table = 5"
  by (simp add: mapped_table_def run_code)

lemma entries_ok_empty_table: "entries_ok empty_table"
  by (simp add: entries_ok_def entry_ok_def)

lemma entries_ok_mapped_table: "entries_ok mapped_table"
  unfolding mapped_table_def by (rule update_ok[OF entries_ok_empty_table])

lemma create_leaf_entry:
  "create_loop vpn 1 r p s = (i, c', p', s') \<Longrightarrow>
   i = 5 \<and> load c' p' (create_from vpn ppn 1 r p s) = push_bit 12 ppn + 1"
  using create_loop_i[of 1 vpn r p s] by (simp add: create_from_def load_store_same)

section \<open>The format of the entries of a well-formed table\<close>






section \<open>The claims\<close>

text \<open>
  C1 (round trip), as the code has it: in a well-formed table whose allocator can still
  hand out four frames with numbers below \<open>2 ^ 52\<close>, for every virtual page number and
  every physical page number \<open>ppn < 2 ^ 52\<close> other than \<^verbatim>\<open>NO_MAPPING\<close>, a query of
  \<open>vpn\<close> right after \<^verbatim>\<open>page_table_update(pt, vpn, ppn)\<close> returns \<open>ppn\<close>.
\<close>

theorem round_trip:
  assumes "wf_table s pt" "unat (nalloc s) + 4 \<le> 2 ^ 52" "ppn \<noteq> nm" "ppn < 2 ^ 52"
  shows "fst (page_table_query nm pt vpn (page_table_update nm pt vpn ppn s)) = ppn"
  using create_postD(6)[OF update_post[OF assms(1,3) disjI1[OF assms(2)]]]
  by (simp only: fst_page_table_query take_bit_52[OF assms(4)])

theorem round_trip_witness:
  "wf_table mapped_table 0 \<and> unat (nalloc mapped_table) + 4 \<le> 2 ^ 52 \<and>
   (9 :: u64) \<noteq> - 1 \<and> (9 :: u64) < 2 ^ 52 \<and>
   fst (page_table_query (- 1) 0 0x1001 (page_table_update (- 1) 0 0x1001 9 mapped_table)) = 9"
proof -
  have a: "unat (nalloc mapped_table) + 4 \<le> 2 ^ 52" by (simp add: nalloc_mapped_table)
  have b: "(9 :: u64) \<noteq> - 1" by simp
  have c: "(9 :: u64) < 2 ^ 52" by simp
  from round_trip[OF wf_mapped_table a b c, of "0x1001"] wf_mapped_table a b c
  show ?thesis by blast
qed

text \<open>
  The entry keeps bits 12 to 63 for the page number, so \<^verbatim>\<open>ppn << 12\<close> drops the
  top twelve bits of \<open>ppn\<close>: after mapping page 0 to \<open>2 ^ 52\<close> in the empty table the
  query returns 0.
\<close>

theorem round_trip_counterexample:
  "(2 ^ 52 :: u64) \<noteq> - 1 \<and>
   fst (page_table_query (- 1) 0 0 (page_table_update (- 1) 0 0 (2 ^ 52) empty_table)) = 0 \<and>
   (0 :: u64) \<noteq> 2 ^ 52"
  by (simp add: run_code)

text \<open>
  C2 (unmap clears), as the code has it: for every root table and every virtual page
  number whose path has table pointers that are multiples of eight, a query of \<open>vpn\<close>
  right after \<^verbatim>\<open>page_table_update(pt, vpn, NO_MAPPING)\<close> returns \<^verbatim>\<open>NO_MAPPING\<close>,
  whatever the table held before. The condition holds in every tree-shaped table
  (\<open>wft_ptrs_aligned\<close>) and in every memory whose entries have the format of the data
  model (\<open>entries_ok_ptrs_aligned\<close>).
\<close>

theorem unmap_clears:
  assumes "ptrs_aligned vpn (push_bit 12 pt) s"
  shows "fst (page_table_query nm pt vpn (page_table_update nm pt vpn nm s)) = nm"
proof -
  obtain i' c' p' where l: "destroy_loop vpn 1 (push_bit 12 pt) (idx vpn 0) s = (i', c', p')"
    by (cases "destroy_loop vpn 1 (push_bit 12 pt) (idx vpn 0) s")
  have e: "entry_at vpn (push_bit 12 pt) s 0 = Some (push_bit 12 pt, idx vpn 0)" by simp
  from destroy_then_query[OF assms e _ _ l, of nm] l show ?thesis
    by (simp add: fst_page_table_query update_destroy destroy_from_def)
qed

theorem unmap_clears_witness:
  "ptrs_aligned 0x1000 (push_bit 12 0) mapped_table \<and>
   fst (page_table_query (- 1) 0 0x1000 mapped_table) = 7 \<and>
   fst (page_table_query (- 1) 0 0x1000 (page_table_update (- 1) 0 0x1000 (- 1) mapped_table))
     = - 1"
proof -
  have a: "ptrs_aligned 0x1000 (push_bit 12 0) mapped_table"
    using wf_mapped_table by (intro wft_ptrs_aligned) (simp add: wf_table_def)
  have b: "fst (page_table_query (- 1) 0 0x1000 mapped_table) = 7"
    by (simp add: mapped_table_def run_code)
  from unmap_clears[OF a, of "- 1"] a b show ?thesis by blast
qed

text \<open>
  In \<open>skewed_table\<close> the first entry of the root is \<open>0x200000005\<close>, so the destroy walk
  of page 0 goes on four bytes into the root, finds an even word there and stores zero
  over the upper half of that first entry. The entry then reads 5, the query follows it
  to the chain at address 4 and returns 7.
\<close>

theorem unmap_clears_counterexample:
  "fst (page_table_query (- 1) 0x200000 0
          (page_table_update (- 1) 0x200000 0 (- 1) skewed_table)) = 7 \<and>
   (7 :: u64) \<noteq> - 1"
  by (simp add: skewed_table_def run_bytes)




text \<open>
  C4 (non-interference), as the code has it: in a well-formed table whose allocator can
  still hand out four frames, mapping \<open>v1\<close> to a page other than \<^verbatim>\<open>NO_MAPPING\<close>
  leaves the result of a query of \<open>v2\<close> unchanged for every \<open>v2\<close> that differs from
  \<open>v1\<close> in bits 0 to 44. This includes a \<open>v2\<close> that differs from \<open>v1\<close> only in the
  lowest index group, as in the instance below.
\<close>

theorem non_interference:
  assumes "wf_table s pt" "unat (nalloc s) + 4 \<le> 2 ^ 52" "ppn \<noteq> nm"
    and "take_bit 45 v2 \<noteq> take_bit 45 v1"
  shows "fst (page_table_query nm pt v2 (page_table_update nm pt v1 ppn s))
           = fst (page_table_query nm pt v2 s)"
  unfolding fst_page_table_query
  by (rule create_postD(7)[OF update_post[OF assms(1,3) disjI1[OF assms(2)]] idx_le
        idx_differs[OF assms(4)]])

theorem non_interference_witness:
  "wf_table mapped_table 0 \<and> unat (nalloc mapped_table) + 4 \<le> 2 ^ 52 \<and>
   (9 :: u64) \<noteq> - 1 \<and> take_bit 45 (0x1000 :: u64) \<noteq> take_bit 45 0x1001 \<and>
   fst (page_table_query (- 1) 0 0x1000 (page_table_update (- 1) 0 0x1001 9 mapped_table))
     = fst (page_table_query (- 1) 0 0x1000 mapped_table) \<and>
   fst (page_table_query (- 1) 0 0x1000 mapped_table) = 7"
proof -
  have a: "unat (nalloc mapped_table) + 4 \<le> 2 ^ 52" by (simp add: nalloc_mapped_table)
  have b: "(9 :: u64) \<noteq> - 1" by simp
  have c: "take_bit 45 (0x1000 :: u64) \<noteq> take_bit 45 0x1001" by simp
  have d: "fst (page_table_query (- 1) 0 0x1000 mapped_table) = 7"
    by (simp add: mapped_table_def run_code)
  from non_interference[OF wf_mapped_table a b c] wf_mapped_table a b c d
  show ?thesis by blast
qed

text \<open>
  Two page numbers that differ only above bit 44 share one walk: mapping page 0 changes
  the result of a query of page \<open>2 ^ 45\<close>.
\<close>

theorem non_interference_counterexample:
  "(0x200000000000 :: u64) \<noteq> 0 \<and> (7 :: u64) \<noteq> - 1 \<and>
   fst (page_table_query (- 1) 0 0x200000000000 empty_table) = - 1 \<and>
   fst (page_table_query (- 1) 0 0x200000000000 (page_table_update (- 1) 0 0 7 empty_table)) = 7"
  by (simp add: run_code)

text \<open>
  C5 (alias boundary): two virtual page numbers that agree on bits 0 to 44 take the same
  walk: the query loop, the query and the update give the same result for both.
\<close>

theorem alias_above_bit_44:
  assumes "take_bit 45 v1 = take_bit 45 v2"
  shows "query_loop nm v1 1 (phys_to_virt (push_bit 12 pt)) (drop_bit 36 v1 AND EXTRACT_9BITS) s
           = query_loop nm v2 1 (phys_to_virt (push_bit 12 pt)) (drop_bit 36 v2 AND EXTRACT_9BITS) s
         \<and> page_table_query nm pt v1 s = page_table_query nm pt v2 s
         \<and> page_table_update nm pt v1 ppn s = page_table_update nm pt v2 ppn s"
proof -
  have i: "drop_bit 36 v1 AND EXTRACT_9BITS = drop_bit 36 v2 AND EXTRACT_9BITS"
    using idx_low45[OF assms, of 0] by (simp add: idx_def)
  show ?thesis
    by (simp add: page_table_query_def page_table_update_def Let_def destroy_virtual_memory_mapping_def
        create_virtual_memory_mapping_def i query_loop_low45[OF assms] destroy_loop_low45[OF assms]
        create_loop_low45[OF assms])
qed

theorem alias_above_bit_44_witness:
  "take_bit 45 (5 :: u64) = take_bit 45 0x200000000005 \<and>
   page_table_query (- 1) 0 5 (page_table_update (- 1) 0 0x200000000005 7 empty_table)
     = page_table_query (- 1) 0 0x200000000005 (page_table_update (- 1) 0 0x200000000005 7 empty_table) \<and>
   page_table_update (- 1) 0 5 7 empty_table = page_table_update (- 1) 0 0x200000000005 7 empty_table"
proof -
  have a: "take_bit 45 (5 :: u64) = take_bit 45 0x200000000005" by simp
  from alias_above_bit_44[OF a, of "- 1" 0 "page_table_update (- 1) 0 0x200000000005 7 empty_table" 7]
       alias_above_bit_44[OF a, of "- 1" 0 empty_table 7] a
  show ?thesis by blast
qed

text \<open>
  C6 (overwrite), as the code has it: in a well-formed table whose allocator can still
  hand out four frames, after mapping \<open>vpn\<close> to \<open>p1\<close> and then to \<open>p2 < 2 ^ 52\<close>
  (neither is \<^verbatim>\<open>NO_MAPPING\<close>) a query of \<open>vpn\<close> returns \<open>p2\<close>; the second call
  runs its loop to the end and stores \<^verbatim>\<open>(p2 << 12) + 1\<close> in the level-5 entry.
\<close>

theorem overwrite:
  assumes "wf_table s pt" "unat (nalloc s) + 4 \<le> 2 ^ 52" "p1 \<noteq> nm" "p2 \<noteq> nm" "p2 < 2 ^ 52"
  shows "fst (page_table_query nm pt vpn
                (page_table_update nm pt vpn p2 (page_table_update nm pt vpn p1 s))) = p2 \<and>
         (case create_loop vpn 1 (push_bit 12 pt) (idx vpn 0) (page_table_update nm pt vpn p1 s) of
            (i, c, p, s') \<Rightarrow>
              i = 5 \<and>
              load c p (page_table_update nm pt vpn p2 (page_table_update nm pt vpn p1 s))
                = push_bit 12 p2 + 1)"
proof -
  note post = update_post[OF assms(1,3) disjI1[OF assms(2)], of vpn]
  have w: "wf_table (page_table_update nm pt vpn p1 s) pt"
    by (rule update_wf[OF assms(1,3) disjI1[OF assms(2)]])
  have v: "fst (destroy_loop vpn 1 (push_bit 12 pt) (idx vpn 0)
                  (page_table_update nm pt vpn p1 s)) = 5"
    by (rule create_postD(8)[OF post])
  from create_postD(6)[OF update_post[OF w assms(4) disjI2[OF v]]]
  have 1: "fst (page_table_query nm pt vpn
                (page_table_update nm pt vpn p2 (page_table_update nm pt vpn p1 s))) = p2"
    by (simp only: fst_page_table_query take_bit_52[OF assms(5)])
  have 2: "(case create_loop vpn 1 (push_bit 12 pt) (idx vpn 0) (page_table_update nm pt vpn p1 s) of
            (i, c, p, s') \<Rightarrow>
              i = 5 \<and>
              load c p (page_table_update nm pt vpn p2 (page_table_update nm pt vpn p1 s))
                = push_bit 12 p2 + 1)"
    using create_leaf_entry[of vpn "push_bit 12 pt" "idx vpn 0" "page_table_update nm pt vpn p1 s"]
    by (simp add: update_create[OF assms(4)] split: prod.splits)
  from 1 2 show ?thesis ..
qed

theorem overwrite_witness:
  "wf_table empty_table 0 \<and> unat (nalloc empty_table) + 4 \<le> 2 ^ 52 \<and>
   (7 :: u64) \<noteq> - 1 \<and> (9 :: u64) \<noteq> - 1 \<and> (9 :: u64) < 2 ^ 52 \<and>
   fst (page_table_query (- 1) 0 0x1000
          (page_table_update (- 1) 0 0x1000 9 (page_table_update (- 1) 0 0x1000 7 empty_table))) = 9"
proof -
  have a: "unat (nalloc empty_table) + 4 \<le> 2 ^ 52" by (simp add: empty_table_def)
  have b: "(7 :: u64) \<noteq> - 1" "(9 :: u64) \<noteq> - 1" by simp_all
  have c: "(9 :: u64) < 2 ^ 52" by simp
  from overwrite[OF wf_empty_table a b c, of "0x1000", THEN conjunct1] wf_empty_table a b c
  show ?thesis by blast
qed

text \<open>
  As for C1, the store drops the top twelve bits of the page number: after mapping page
  \<open>0x1000\<close> to 7 and then to \<open>2 ^ 52\<close> the query returns 0.
\<close>

theorem overwrite_counterexample:
  "(7 :: u64) \<noteq> - 1 \<and> (2 ^ 52 :: u64) \<noteq> - 1 \<and> (7 :: u64) \<noteq> 2 ^ 52 \<and>
   fst (page_table_query (- 1) 0 0x1000
          (page_table_update (- 1) 0 0x1000 (2 ^ 52)
             (page_table_update (- 1) 0 0x1000 7 empty_table))) = 0 \<and>
   (0 :: u64) \<noteq> 2 ^ 52"
  by (simp add: run_code)

text \<open>
  C7 (query is read-only): \<^verbatim>\<open>page_table_query\<close> returns the state it was given, on
  every path.
\<close>

theorem query_no_writes: "snd (page_table_query nm pt vpn s) = s"
  using query_loop_state[of nm vpn 1 "phys_to_virt (push_bit 12 pt)" "drop_bit 36 vpn AND EXTRACT_9BITS" s]
  by (auto simp: page_table_query_def split: prod.splits sum.splits)

text \<open>
  C8 (bounded walks), as the code has it: started at \<open>i = 1\<close> on the first index, the
  create loop is left with \<open>i = 5\<close>, after exactly four iterations. The destroy loop is
  left with some \<open>i\<close> between 1 and 5 at the entry of level \<open>i\<close> on the path of
  \<open>vpn\<close>, so the pointer entries of the levels before are valid; when \<open>i < 5\<close> the
  loop was left by \<^verbatim>\<open>break\<close> and that entry is invalid: the first invalid pointer
  entry of the path. The query loop returns \<^verbatim>\<open>NO_MAPPING\<close> from inside the loop in
  exactly that case, and is left with \<open>i = 5\<close> at the same level-5 entry otherwise. All
  three loops are total functions, with \<open>5 - i\<close> as the measure.
\<close>

theorem walks_bounded:
  "fst (create_loop vpn 1 root (idx vpn 0) s) = 5 \<and>
   (case destroy_loop vpn 1 root (idx vpn 0) s of
      (i, c, p) \<Rightarrow>
        1 \<le> i \<and> i \<le> 5 \<and> entry_at vpn root s (i - 1) = Some (c, p) \<and>
        (i < 5 \<longrightarrow> load c p s mod 2 = 0) \<and>
        query_loop nm vpn 1 root (idx vpn 0) s = (if i < 5 then Inl nm else Inr (i, c, p), s))"
proof -
  obtain i c p where l: "destroy_loop vpn 1 root (idx vpn 0) s = (i, c, p)"
    by (cases "destroy_loop vpn 1 root (idx vpn 0) s")
  have e: "entry_at vpn root s 0 = Some (root, idx vpn 0)" by simp
  from destroy_loop_path[OF e _ _ l]
  have "1 \<le> i \<and> i \<le> 5 \<and> entry_at vpn root s (i - 1) = Some (c, p) \<and>
        (i < 5 \<longrightarrow> load c p s mod 2 = 0)" by simp
  moreover have "query_loop nm vpn 1 root (idx vpn 0) s
                   = (if i < 5 then Inl nm else Inr (i, c, p), s)"
    using query_loop_destroy[of nm vpn 1 root "idx vpn 0" s] l by simp
  moreover have "fst (create_loop vpn 1 root (idx vpn 0) s) = 5"
    by (rule create_loop_i) simp
  ultimately show ?thesis using l by simp
qed

theorem walks_bounded_witness:
  "destroy_loop 0x1000 1 0 (idx 0x1000 0) empty_table = (1, 0, 0) \<and>
   entry_at 0x1000 0 empty_table 0 = Some (0, 0) \<and>
   load 0 0 empty_table mod 2 = 0 \<and>
   query_loop (- 1) 0x1000 1 0 (idx 0x1000 0) empty_table = (Inl (- 1), empty_table) \<and>
   fst (create_loop 0x1000 1 0 (idx 0x1000 0) empty_table) = 5"
proof -
  have j: "idx 0x1000 0 = 0" by (simp add: idx_def EXTRACT_9BITS_def)
  have a: "destroy_loop 0x1000 1 0 (idx 0x1000 0) empty_table = (1, 0, 0)"
    by (simp add: run_code)
  from walks_bounded[of "0x1000" 0 empty_table "- 1"] a j show ?thesis by simp
qed

text \<open>
  On an empty table the destroy loop breaks in its first iteration and the query returns
  from inside the loop, without reaching the fifth level: neither runs four iterations.
\<close>

theorem four_iterations_counterexample:
  "fst (destroy_loop 0 1 (phys_to_virt (push_bit 12 0)) (drop_bit 36 0 AND EXTRACT_9BITS) empty_table) = 1 \<and>
   fst (query_loop (- 1) 0 1 (phys_to_virt (push_bit 12 0)) (drop_bit 36 0 AND EXTRACT_9BITS) empty_table)
     = Inl (- 1)"
  by (simp add: run_code)

text \<open>
  C9 (destroy only clears the leaf entry), as the code has it: in a tree-shaped table, when
  the invalid pointer entry that stops the walk of \<open>vpn\<close> (if there is one) is zero,
  \<^verbatim>\<open>page_table_update(pt, vpn, NO_MAPPING)\<close> leaves the allocator alone, keeps the set
  of tables of the tree and changes no entry of a table of levels 1 to 4. If the walk is
  stopped it changes nothing; if it reaches level 5 it leaves the level-5 entry of the
  path zero. The only bytes of memory it can change are those of that level-5 entry.
\<close>

theorem destroy_frame:
  assumes "wft s 4 (push_bit 12 pt)"
    and "destroy_loop vpn 1 (push_bit 12 pt) (idx vpn 0) s = (i, c, p)"
    and "i < 5 \<longrightarrow> load c p s = 0"
  shows "nalloc (page_table_update nm pt vpn nm s) = nalloc s \<and>
         nodes (page_table_update nm pt vpn nm s) 4 (push_bit 12 pt) = nodes s 4 (push_bit 12 pt) \<and>
         ptr_nodes (page_table_update nm pt vpn nm s) 4 (push_bit 12 pt)
           = ptr_nodes s 4 (push_bit 12 pt) \<and>
         (\<forall>n j. n \<in> ptr_nodes s 4 (push_bit 12 pt) \<and> j \<le> 0x1ff \<longrightarrow>
                load n j (page_table_update nm pt vpn nm s) = load n j s) \<and>
         (i < 5 \<longrightarrow> page_table_update nm pt vpn nm s = s) \<and>
         (i = 5 \<longrightarrow> entry_at vpn (push_bit 12 pt) s 4 = Some (c, p) \<and>
                    load c p (page_table_update nm pt vpn nm s) = 0) \<and>
         (\<forall>a. mem (page_table_update nm pt vpn nm s) a \<noteq> mem s a \<longrightarrow>
              i = 5 \<and> a - (c + 8 * p) < 8)"
proof -
  define s' where "s' = store c p 0 s"
  have u: "page_table_update nm pt vpn nm s = s'"
    using assms(2) by (simp add: update_destroy destroy_from_def s'_def)
  have 1: "nalloc s' = nalloc s" by (simp add: s'_def)
  have 4: "load n j s' = load n j s" if "n \<in> ptr_nodes s 4 (push_bit 12 pt)" "j \<le> 0x1ff" for n j
    unfolding s'_def by (rule destroy_ptr_frame[OF assms(1) _ idx_le assms(2,3) that]) simp
  from ptr_cong[of s 4 "push_bit 12 pt" s', OF 4]
  have 2: "nodes s' 4 (push_bit 12 pt) = nodes s 4 (push_bit 12 pt)"
    and 3: "ptr_nodes s' 4 (push_bit 12 pt) = ptr_nodes s 4 (push_bit 12 pt)" by simp_all
  have 5: "s' = s" if "i < 5"
    unfolding s'_def using that assms(3) by (simp add: store_zero_same)
  have e: "entry_at vpn (push_bit 12 pt) s 0 = Some (push_bit 12 pt, idx vpn 0)" by simp
  have 6: "entry_at vpn (push_bit 12 pt) s 4 = Some (c, p) \<and> load c p s' = 0" if "i = 5"
    using destroy_loop_path[OF e _ _ assms(2)] that by (simp add: s'_def load_store_same)
  have 7: "i = 5 \<and> a - (c + 8 * p) < 8" if "mem s' a \<noteq> mem s a" for a
  proof -
    have "\<not> i < 5" using 5 that by auto
    moreover have "i \<le> 5" using destroy_loop_path[OF e _ _ assms(2)] by simp
    ultimately show ?thesis using mem_store_changed[OF that[unfolded s'_def]] by simp
  qed
  show ?thesis unfolding u using 1 2 3 4 5 6 7 by simp
qed

theorem destroy_frame_witness:
  "wft mapped_table 4 (push_bit 12 0) \<and>
   destroy_loop 0x1000 1 (push_bit 12 0) (idx 0x1000 0) mapped_table = (5, 0x4000, 0) \<and>
   load 0x4000 0 mapped_table = 0x7001 \<and>
   load 0x4000 0 (page_table_update (- 1) 0 0x1000 (- 1) mapped_table) = 0 \<and>
   nalloc (page_table_update (- 1) 0 0x1000 (- 1) mapped_table) = nalloc mapped_table \<and>
   nodes (page_table_update (- 1) 0 0x1000 (- 1) mapped_table) 4 (push_bit 12 0)
     = nodes mapped_table 4 (push_bit 12 0) \<and>
   destroy_loop 0x1000000000 1 (push_bit 12 0) (idx 0x1000000000 0) mapped_table = (1, 0, 1) \<and>
   load 0 1 mapped_table = 0 \<and>
   page_table_update (- 1) 0 0x1000000000 (- 1) mapped_table = mapped_table"
proof -
  have a: "wft mapped_table 4 (push_bit 12 0)" using wf_mapped_table by (simp add: wf_table_def)
  have b: "destroy_loop 0x1000 1 (push_bit 12 0) (idx 0x1000 0) mapped_table = (5, 0x4000, 0)"
    by (simp add: mapped_table_def run_code)
  have c: "load 0x4000 0 mapped_table = 0x7001" by (simp add: mapped_table_def run_code)
  have d: "destroy_loop 0x1000000000 1 (push_bit 12 0) (idx 0x1000000000 0) mapped_table
             = (1, 0, 1)"
    by (simp add: mapped_table_def run_code)
  have e: "load 0 1 mapped_table = 0" by (simp add: mapped_table_def run_code)
  from destroy_frame[OF a b, of "- 1"] destroy_frame[OF a d, of "- 1"] a b c d e
  show ?thesis by simp
qed

text \<open>
  In \<open>looped_table\<close> the first root entry is a valid pointer to the root itself, so the
  walk of page 0 stays in the root and its level-5 entry is that first root entry: the
  destroy clears a valid pointer entry of level 1. In \<open>stale_table\<close> the walk is
  stopped at the first root entry, which is 2, and the destroy changes it to 0.
\<close>

theorem destroy_frame_counterexample:
  "entry_at 0 (push_bit 12 0) looped_table 0 = Some (0, 0) \<and>
   load 0 0 looped_table = 1 \<and>
   load 0 0 (page_table_update (- 1) 0 0 (- 1) looped_table) = 0 \<and>
   entry_at 0 (push_bit 12 0) stale_table 0 = Some (0, 0) \<and>
   load 0 0 stale_table = 2 \<and>
   load 0 0 (page_table_update (- 1) 0 0 (- 1) stale_table) = 0"
  by (simp add: looped_table_def stale_table_def run_code)



end
